theory Spec2Isabelle
  imports Main "HOL-Library.AList" "HOL-Library.List_Lexorder" "HOL-Library.Char_ord"
begin

section \<open>Data types of the registry (tools/f22\_data\_manager.py)\<close>

text \<open>
  The enums \<open>DataStatus\<close> and \<open>DataCategory\<close> with their string values, the
  dataclass \<open>DataRecord\<close>, and the rows of the SQLite tables \<open>data_records\<close>,
  \<open>lineage\<close> and \<open>audit_log\<close>. A JSON value (the \<open>metadata\<close> bag, the audit
  details, a parsed file) is a value of \<open>json\<close>; a Python dict is an association list
  in insertion order. \<open>json.dumps\<close> followed by \<open>json.loads\<close> is the identity on
  such values, so the \<open>metadata\<close> and \<open>details\<close> columns hold the value itself.
\<close>

datatype DataStatus = VALID | STALE | INVALID | MISSING | PROCESSING

datatype DataCategory =
  SOURCE | DERIVED | MODEL | MEASUREMENT | TOUCH_MASK | EXPORT | OUTPUT | APP | SCHEMA

fun status_value :: "DataStatus \<Rightarrow> string" where
  "status_value VALID = ''valid''"
| "status_value STALE = ''stale''"
| "status_value INVALID = ''invalid''"
| "status_value MISSING = ''missing''"
| "status_value PROCESSING = ''processing''"

fun category_value :: "DataCategory \<Rightarrow> string" where
  "category_value SOURCE = ''source''"
| "category_value DERIVED = ''derived''"
| "category_value MODEL = ''model''"
| "category_value MEASUREMENT = ''measurement''"
| "category_value TOUCH_MASK = ''touch_mask''"
| "category_value EXPORT = ''export''"
| "category_value OUTPUT = ''output''"
| "category_value APP = ''app''"
| "category_value SCHEMA = ''schema''"

datatype json =
  JNull | JBool bool | JInt int | JFloat string | JStr string
| JList "json list" | JObj "(string \<times> json) list"

text \<open>The dataclass \<open>DataRecord\<close>; \<open>size\<close> is written \<open>size_bytes\<close>.\<close>

record DataRecord =
  uid :: string
  path :: string
  category :: DataCategory
  status :: DataStatus
  size_bytes :: int
  hash_sha256 :: string
  created_at :: string
  modified_at :: string
  version :: int
  parent_uids :: "string list"
  child_uids :: "string list"
  metadata :: "(string \<times> json) list"
  schema_uid :: "string option"

text \<open>A row of the table \<open>data_records\<close> (primary key \<open>uid\<close>).\<close>

record Row =
  col_uid :: string
  col_path :: string
  col_category :: DataCategory
  col_status :: DataStatus
  col_size :: int
  col_hash_sha256 :: string
  col_created_at :: string
  col_modified_at :: string
  col_version :: int
  col_metadata :: "(string \<times> json) list"
  col_schema_uid :: "string option"

text \<open>A row of the table \<open>lineage\<close> (primary key \<open>(parent_uid, child_uid)\<close>).\<close>

record Lineage =
  parent_uid :: string
  child_uid :: string
  relationship :: string
  edge_created_at :: string

text \<open>A row of the table \<open>audit_log\<close>; the autoincrement id is the position.\<close>

record AuditEntry =
  timestamp :: string
  action :: string
  target_uid :: "string option"
  actor :: string
  details :: "(string \<times> json) list"

text \<open>
  The database file, as far as the record operations use it. Each table is the list of
  its rows in rowid order: a new row is appended, and \<open>INSERT OR REPLACE\<close> deletes
  the row with the same key and appends the new one. No \<open>SELECT\<close> of the record
  operations has an \<open>ORDER BY\<close>, so its rows come in the order of the index SQLite
  answers it from: rowid order for an index on one column, and ascending key order for
  a primary-key index that holds every column asked for. Text keys compare bytewise
  (the collation \<open>BINARY\<close>), which is the order of \<open>string\<close> here.
\<close>

record Registry =
  data_records :: "Row list"
  lineage :: "Lineage list"
  audit_log :: "AuditEntry list"

text \<open>The exceptions of the modelled calls: the recursion limit, and a failing storage write.\<close>

datatype error = RecursionError | StorageError

section \<open>DataRegistry\<close>

text \<open>
  \<open>_audit(action, target_uid, details)\<close>: one \<open>INSERT INTO audit_log\<close>, in a
  connection of its own, after the caller's transaction. The argument \<open>now\<close> of every
  operation is the reading of the clock (\<open>self._now()\<close>) during the call.
\<close>

definition audit :: "string \<Rightarrow> string \<Rightarrow> string option \<Rightarrow> (string \<times> json) list \<Rightarrow> Registry \<Rightarrow> Registry" where
  "audit now act target det db =
     db\<lparr>audit_log := audit_log db @
       [\<lparr>timestamp = now, action = act, target_uid = target, actor = ''system'', details = det\<rparr>]\<rparr>"

text \<open>The tuple of values that \<open>register\<close> binds to the columns of \<open>data_records\<close>.\<close>

definition row_of :: "DataRecord \<Rightarrow> Row" where
  "row_of r =
     \<lparr>col_uid = uid r, col_path = path r, col_category = category r, col_status = status r,
      col_size = size_bytes r, col_hash_sha256 = hash_sha256 r, col_created_at = created_at r,
      col_modified_at = modified_at r, col_version = version r, col_metadata = metadata r,
      col_schema_uid = schema_uid r\<rparr>"

text \<open>\<open>INSERT OR REPLACE INTO data_records\<close>.\<close>

definition replace_row :: "Row \<Rightarrow> Row list \<Rightarrow> Row list" where
  "replace_row r rows = filter (\<lambda>x. col_uid x \<noteq> col_uid r) rows @ [r]"

text \<open>\<open>DELETE FROM lineage WHERE child_uid = ?\<close>.\<close>

definition delete_parent_edges :: "string \<Rightarrow> Lineage list \<Rightarrow> Lineage list" where
  "delete_parent_edges u es = filter (\<lambda>e. child_uid e \<noteq> u) es"

text \<open>\<open>INSERT OR IGNORE INTO lineage (parent_uid, child_uid, created_at)\<close>.\<close>

definition insert_edge :: "string \<Rightarrow> string \<Rightarrow> string \<Rightarrow> Lineage list \<Rightarrow> Lineage list" where
  "insert_edge now c p es =
     (if list_ex (\<lambda>e. parent_uid e = p \<and> child_uid e = c) es then es
      else es @ [\<lparr>parent_uid = p, child_uid = c, relationship = ''derived_from'',
                  edge_created_at = now\<rparr>])"

text \<open>
  \<open>register\<close>: the row is replaced and the edges to the parents are deleted and
  inserted again from \<open>record.parent_uids\<close>, in one transaction; then the audit entry.
  The call returns the record it was given.
\<close>

definition register :: "string \<Rightarrow> Registry \<Rightarrow> DataRecord \<Rightarrow> Registry" where
  "register now db r =
     audit now ''register'' (Some (uid r))
       [(''path'', JStr (path r)), (''category'', JStr (category_value (category r)))]
       (db\<lparr>data_records := replace_row (row_of r) (data_records db),
           lineage := fold (insert_edge now (uid r)) (parent_uids r)
                        (delete_parent_edges (uid r) (lineage db))\<rparr>)"

text \<open>
  \<open>SELECT parent_uid FROM lineage WHERE child_uid = ?\<close> is answered from the index
  \<open>idx_lineage_child\<close>: the parents come in rowid order.
\<close>

definition parents_of :: "Lineage list \<Rightarrow> string \<Rightarrow> string list" where
  "parents_of es u = map parent_uid (filter (\<lambda>e. child_uid e = u) es)"

text \<open>
  \<open>SELECT child_uid FROM lineage WHERE parent_uid = ?\<close> is answered from the index of
  the primary key \<open>(parent_uid, child_uid)\<close>: the children come in ascending order of
  their uid.
\<close>

definition children_of :: "Lineage list \<Rightarrow> string \<Rightarrow> string list" where
  "children_of es u = sort (map child_uid (filter (\<lambda>e. parent_uid e = u) es))"

text \<open>
  \<open>get\<close> and \<open>get_by_path\<close>: \<open>fetchone\<close> takes the first row in rowid order;
  the parents and the children are read from the lineage table on every call.
\<close>

definition get :: "Registry \<Rightarrow> string \<Rightarrow> DataRecord option" where
  "get db u =
     (case find (\<lambda>r. col_uid r = u) (data_records db) of
        None \<Rightarrow> None
      | Some row \<Rightarrow>
          Some \<lparr>uid = col_uid row, path = col_path row, category = col_category row,
                status = col_status row, size_bytes = col_size row,
                hash_sha256 = col_hash_sha256 row, created_at = col_created_at row,
                modified_at = col_modified_at row, version = col_version row,
                parent_uids = parents_of (lineage db) u,
                child_uids = children_of (lineage db) u,
                metadata = col_metadata row, schema_uid = col_schema_uid row\<rparr>)"

definition get_by_path :: "Registry \<Rightarrow> string \<Rightarrow> DataRecord option" where
  "get_by_path db p =
     (case find (\<lambda>r. col_path r = p) (data_records db) of
        None \<Rightarrow> None
      | Some row \<Rightarrow> get db (col_uid row))"

text \<open>
  \<open>query(category, status, limit)\<close>: the conjunctive filter and \<open>LIMIT\<close>, then
  \<open>get\<close> on every uid found. Without a filter the uids are read from the index of
  the primary key \<open>uid\<close>, in ascending order; with a filter they are read through the
  index of the filtered column, in rowid order. The \<open>path_prefix\<close> filter (an SQL
  \<open>LIKE\<close>) is not used by the scanner and is left out.
\<close>

definition query :: "Registry \<Rightarrow> DataCategory option \<Rightarrow> DataStatus option \<Rightarrow> nat \<Rightarrow> DataRecord list" where
  "query db cat st limit =
     List.map_filter (get db)
       (take limit
         (if cat = None \<and> st = None then sort (map col_uid (data_records db))
          else map col_uid
                 (filter (\<lambda>row. (case cat of None \<Rightarrow> True | Some c \<Rightarrow> col_category row = c) \<and>
                                 (case st of None \<Rightarrow> True | Some s \<Rightarrow> col_status row = s))
                    (data_records db))))"

text \<open>
  \<open>_get_descendants\<close>: the recursion has no guard against a uid seen before. The
  first argument is the number of nested calls the interpreter still allows (Python's
  recursion limit less the frames in use); when it is used up the call raises
  \<open>RecursionError\<close>, here \<open>None\<close>.
\<close>

fun get_descendants :: "nat \<Rightarrow> Lineage list \<Rightarrow> string \<Rightarrow> string list option" where
  "get_descendants 0 es u = None"
| "get_descendants (Suc n) es u =
     fold (\<lambda>child acc.
             case acc of
               None \<Rightarrow> None
             | Some ds \<Rightarrow>
                 (case get_descendants n es child of
                    None \<Rightarrow> None
                  | Some sub \<Rightarrow> Some (ds @ [child] @ sub)))
       (children_of es u) (Some [])"

text \<open>\<open>UPDATE data_records SET status = 'stale' WHERE uid = ?\<close>.\<close>

definition set_stale :: "string \<Rightarrow> Row list \<Rightarrow> Row list" where
  "set_stale u rows = map (\<lambda>r. if col_uid r = u then r\<lparr>col_status := STALE\<rparr> else r) rows"

text \<open>
  \<open>mark_stale\<close>: the updates run in one transaction; when \<open>_get_descendants\<close>
  raises, the connection's context manager rolls back, nothing is audited and the
  exception leaves the call.
\<close>

definition mark_stale :: "nat \<Rightarrow> string \<Rightarrow> Registry \<Rightarrow> string \<Rightarrow> error + Registry" where
  "mark_stale depth now db u =
     (case get_descendants depth (lineage db) u of
        None \<Rightarrow> Inl RecursionError
      | Some descendants \<Rightarrow>
          Inr (audit now ''mark_stale'' (Some u)
                 [(''descendants'', JInt (int (length descendants)))]
                 (db\<lparr>data_records := fold set_stale descendants (set_stale u (data_records db))\<rparr>)))"

text \<open>\<open>delete\<close>: both \<open>DELETE\<close> statements, then the audit entry.\<close>

definition delete :: "string \<Rightarrow> Registry \<Rightarrow> string \<Rightarrow> Registry" where
  "delete now db u =
     audit now ''delete'' (Some u) []
       (db\<lparr>lineage := filter (\<lambda>e. \<not> (parent_uid e = u \<or> child_uid e = u)) (lineage db),
           data_records := filter (\<lambda>r. col_uid r \<noteq> u) (data_records db)\<rparr>)"

section \<open>register when a storage write fails\<close>

text \<open>
  \<open>register\<close> with a failing storage engine. The writes of one call are numbered in the
  order the code issues them: 0 the \<open>INSERT OR REPLACE\<close>, 1 the \<open>DELETE\<close>, then one
  \<open>INSERT OR IGNORE\<close> for each parent, then the \<open>commit\<close>, and last the
  \<open>INSERT\<close> of \<open>_audit\<close> in its own connection. \<open>fail\<close> names the write that
  raises (\<open>None\<close>: the engine works).
\<close>

fun execute_all :: "nat option \<Rightarrow> nat \<Rightarrow> (Registry \<Rightarrow> Registry) list \<Rightarrow> Registry \<Rightarrow> error + Registry" where
  "execute_all fail i [] db = Inr db"
| "execute_all fail i (stmt # stmts) db =
     (if fail = Some i then Inl StorageError else execute_all fail (Suc i) stmts (stmt db))"

text \<open>
  \<open>with sqlite3.connect(...) as conn:\<close> around the statements: they run in one
  transaction, which the context manager commits when the block ends and rolls back when
  the block raises. The result is the database afterwards and the exception, if any.
\<close>

definition transaction :: "nat option \<Rightarrow> (Registry \<Rightarrow> Registry) list \<Rightarrow> Registry \<Rightarrow> Registry \<times> error option" where
  "transaction fail stmts db =
     (case execute_all fail 0 stmts db of
        Inl err \<Rightarrow> (db, Some err)
      | Inr db' \<Rightarrow> if fail = Some (length stmts) then (db, Some StorageError) else (db', None))"

definition register_statements :: "string \<Rightarrow> DataRecord \<Rightarrow> (Registry \<Rightarrow> Registry) list" where
  "register_statements now r =
     (\<lambda>db. db\<lparr>data_records := replace_row (row_of r) (data_records db)\<rparr>) #
     (\<lambda>db. db\<lparr>lineage := delete_parent_edges (uid r) (lineage db)\<rparr>) #
     map (\<lambda>p db. db\<lparr>lineage := insert_edge now (uid r) p (lineage db)\<rparr>) (parent_uids r)"

definition register_failing :: "nat option \<Rightarrow> string \<Rightarrow> Registry \<Rightarrow> DataRecord \<Rightarrow> Registry \<times> error option" where
  "register_failing fail now db r =
     (case transaction fail (register_statements now r) db of
        (db', Some err) \<Rightarrow> (db', Some err)
      | (db', None) \<Rightarrow>
          if fail = Some (Suc (length (register_statements now r))) then (db', Some StorageError)
          else (audit now ''register'' (Some (uid r))
                  [(''path'', JStr (path r)), (''category'', JStr (category_value (category r)))] db',
                None))"

section \<open>Touch zones\<close>

text \<open>
  The dataclass \<open>TouchZone\<close>, which is also a row of the table \<open>touch_zones\<close>
  (the JSON text of \<open>vertices\<close> and \<open>metadata\<close> is the value itself). The type
  \<open>'f\<close> stands for Python's floats, which the lookup only carries along.
\<close>

record 'f TouchZone =
  tz_uid :: string
  tz_component_uid :: string
  tz_label :: string
  color_hex :: string
  vertices :: "('f \<times> 'f) list"
  center_x :: 'f
  center_y :: 'f
  area :: 'f
  tz_metadata :: "(string \<times> json) list"

text \<open>
  \<open>str.upper\<close> and SQLite's \<open>UPPER\<close> on ASCII strings (colour keys are hex
  digits): the letters \<open>a\<close> to \<open>z\<close> become \<open>A\<close> to \<open>Z\<close>, every other
  character stays. \<open>replace("#", "")\<close> and \<open>REPLACE(color_hex, '#', '')\<close>
  drop every \<open>#\<close>.
\<close>

definition upper_char :: "char \<Rightarrow> char" where
  "upper_char c =
     (if 97 \<le> (of_char c :: nat) \<and> (of_char c :: nat) \<le> 122
      then char_of ((of_char c :: nat) - 32) else c)"

definition upper :: "string \<Rightarrow> string" where
  "upper s = map upper_char s"

definition remove_hash :: "string \<Rightarrow> string" where
  "remove_hash s = filter (\<lambda>c. c \<noteq> CHR ''#'') s"

text \<open>
  \<open>get_touch_zone_by_color\<close>: the key is upper-cased, then stripped of \<open>#\<close>; the
  column is stripped, then upper-cased; \<open>fetchone\<close> takes the first row that matches.
\<close>

definition get_touch_zone_by_color :: "'f TouchZone list \<Rightarrow> string \<Rightarrow> 'f TouchZone option" where
  "get_touch_zone_by_color touch_zones key =
     find (\<lambda>row. upper (remove_hash (color_hex row)) = remove_hash (upper key)) touch_zones"

section \<open>FileSystem\<close>

text \<open>
  The configuration keys the file system and the scanner read; \<open>DEFAULT_CONFIG\<close> has
  each of them, so \<open>config.get(key, default)\<close> finds the key.
\<close>

record Config =
  hash_max_mb :: int
  apps_folder :: string
  sources_folder :: string
  derived_folder :: string
  models_folder :: string
  measurements_folder :: string
  touch_masks_folder :: string
  exports_folder :: string
  outputs_folder :: string
  schemas_folder :: string
  exclude_folders :: "string list"

definition DEFAULT_CONFIG :: Config where
  "DEFAULT_CONFIG =
     \<lparr>hash_max_mb = 50, apps_folder = ''web'', sources_folder = ''data/sources'',
      derived_folder = ''data/exports'', models_folder = ''data/models'',
      measurements_folder = ''data/measurements'', touch_masks_folder = ''data/touch_masks'',
      exports_folder = ''data/exports'', outputs_folder = ''outputs'',
      schemas_folder = ''schemas'',
      exclude_folders = [''node_modules'', ''.git'', ''__pycache__'', ''manager/backups'']\<rparr>"

text \<open>
  What the scanner sees of one entry under the root: its root-relative path with forward
  slashes (the result of \<open>rel_path\<close>), whether it is a directory, the size that
  \<open>stat\<close> reports (\<open>None\<close> when \<open>stat\<close> raises), the SHA-256 hex digest of
  its bytes (\<open>None\<close> when the file cannot be read) and the value \<open>read_json\<close>
  returns for it (\<open>None\<close> when reading or parsing fails).
\<close>

record Entry =
  rel :: string
  is_dir :: bool
  st_size :: "int option"
  sha256_hex :: "string option"
  parsed_json :: "json option"

text \<open>
  \<open>hash_file\<close>: \<open>None\<close> for a file above \<open>hash_max_mb\<close> megabytes, and when
  \<open>stat\<close> or the reading raises; else the digest of the bytes, read in chunks.
\<close>

definition hash_file :: "Config \<Rightarrow> Entry \<Rightarrow> string option" where
  "hash_file cfg e =
     (case st_size e of
        None \<Rightarrow> None
      | Some sz \<Rightarrow> if sz > hash_max_mb cfg * 1024 * 1024 then None else sha256_hex e)"

text \<open>
  The replacement of every backslash by a slash, \<open>s.strip("/")\<close> and
  \<open>s.startswith(p)\<close>, and with them \<open>is_excluded\<close> and \<open>categorize_file\<close> on
  a root-relative path.
\<close>

definition replace_backslash :: "string \<Rightarrow> string" where
  "replace_backslash s = map (\<lambda>c. if c = CHR 0x5C then CHR ''/'' else c) s"

definition strip_slashes :: "string \<Rightarrow> string" where
  "strip_slashes s =
     rev (dropWhile (\<lambda>c. c = CHR ''/'') (rev (dropWhile (\<lambda>c. c = CHR ''/'') s)))"

definition startswith :: "string \<Rightarrow> string \<Rightarrow> bool" where
  "startswith s p = (take (length p) s = p)"

definition is_excluded :: "Config \<Rightarrow> string \<Rightarrow> bool" where
  "is_excluded cfg rel_path =
     list_ex (\<lambda>ex. replace_backslash rel_path = strip_slashes (replace_backslash ex) \<or>
                    startswith (replace_backslash rel_path)
                      (strip_slashes (replace_backslash ex) @ ''/''))
       (exclude_folders cfg)"

definition categorize_file :: "Config \<Rightarrow> string \<Rightarrow> DataCategory" where
  "categorize_file cfg r =
     (if startswith r (apps_folder cfg @ ''/'') then APP
      else if startswith r (sources_folder cfg @ ''/'') then SOURCE
      else if startswith r (derived_folder cfg @ ''/'') then DERIVED
      else if startswith r (models_folder cfg @ ''/'') then MODEL
      else if startswith r (measurements_folder cfg @ ''/'') then MEASUREMENT
      else if startswith r (touch_masks_folder cfg @ ''/'') then TOUCH_MASK
      else if startswith r (exports_folder cfg @ ''/'') then EXPORT
      else if startswith r (outputs_folder cfg @ ''/'') then OUTPUT
      else if startswith r (schemas_folder cfg @ ''/'') then SCHEMA
      else SOURCE)"

text \<open>\<open>walk_all\<close>: every entry under the root that is no directory and not excluded.\<close>

definition walk_all :: "Config \<Rightarrow> Entry list \<Rightarrow> Entry list" where
  "walk_all cfg tree = filter (\<lambda>p. \<not> is_dir p \<and> \<not> is_excluded cfg (rel p)) tree"

section \<open>DataScanner\<close>

text \<open>The name of a JSON value's Python type, and of the type \<open>require\<close> expects.\<close>

fun type_name :: "json \<Rightarrow> string" where
  "type_name JNull = ''NoneType''"
| "type_name (JBool b) = ''bool''"
| "type_name (JInt i) = ''int''"
| "type_name (JFloat f) = ''float''"
| "type_name (JStr s) = ''str''"
| "type_name (JList xs) = ''list''"
| "type_name (JObj kvs) = ''dict''"

text \<open>
  \<open>require(obj, key, t)\<close> of \<open>_validate_json_file\<close>, returning the messages it
  appends; the type \<open>t\<close> is given by its name.
\<close>

definition require :: "(string \<times> json) list \<Rightarrow> string \<Rightarrow> string \<Rightarrow> string list" where
  "require obj key t =
     (case map_of obj key of
        None \<Rightarrow> [''Missing key: '' @ key]
      | Some v \<Rightarrow>
          if type_name v = t then []
          else [''Key '' @ [CHR 0x27] @ key @ [CHR 0x27] @ '' wrong type: expected <class '' @
                [CHR 0x27] @ t @ [CHR 0x27] @ ''>, got '' @ type_name v])"

text \<open>
  \<open>Path(rel_norm).name\<close>, the table \<open>key_files\<close>, and \<open>_validate_json_file\<close>,
  which returns the status and the messages.
\<close>

definition basename :: "string \<Rightarrow> string" where
  "basename s = rev (takeWhile (\<lambda>c. c \<noteq> CHR ''/'') (rev s))"

definition key_files :: "(string \<times> string) list" where
  "key_files =
     [(''data/sources/master_parts_v2.json'', ''master_parts_v2''),
      (''data/exports/master_inventory_v2.json'', ''master_inventory_v2''),
      (''data/exports/blueprint_map_v2.json'', ''blueprint_map_v2''),
      (''panel_id_map_colors.json'', ''panel_id_map_colors'')]"

definition validate_json_file :: "string \<Rightarrow> Entry \<Rightarrow> DataStatus \<times> string list" where
  "validate_json_file rel_path e =
     (let rel_norm = replace_backslash rel_path;
          filename = basename rel_norm
      in if map_of key_files rel_norm = None \<and>
            filename \<notin> set [''master_parts_v2.json'', ''master_inventory_v2.json'',
                              ''blueprint_map_v2.json'', ''panel_id_map_colors.json'']
         then (VALID, [])
         else
           (case parsed_json e of
              None \<Rightarrow> (INVALID, [''JSON parse failed''])
            | Some JNull \<Rightarrow> (INVALID, [''JSON parse failed''])
            | Some data \<Rightarrow>
                (let kind = (case map_of key_files rel_norm of None \<Rightarrow> filename | Some k \<Rightarrow> k);
                     msgs =
                       (if kind = ''master_parts_v2'' \<or> kind = ''master_parts_v2.json'' then
                          (case data of
                             JObj obj \<Rightarrow> require obj ''schema'' ''str'' @ require obj ''parts'' ''list''
                           | _ \<Rightarrow> [''Root must be an object''])
                        else if kind = ''master_inventory_v2'' \<or> kind = ''master_inventory_v2.json'' then
                          (case data of
                             JObj obj \<Rightarrow> require obj ''schema'' ''str''
                           | _ \<Rightarrow> [''Root must be an object''])
                        else if kind = ''blueprint_map_v2'' \<or> kind = ''blueprint_map_v2.json'' then
                          (case data of
                             JObj obj \<Rightarrow> require obj ''schema'' ''str''
                           | _ \<Rightarrow> [''Root must be an object''])
                        else if kind = ''panel_id_map_colors'' \<or> kind = ''panel_id_map_colors.json'' then
                          (case data of
                             JObj obj \<Rightarrow> require obj ''mapping'' ''dict''
                           | _ \<Rightarrow> [''Root must be an object''])
                        else [])
                 in if msgs \<noteq> [] then (INVALID, msgs) else (VALID, []))))"

text \<open>The counters a scan pass returns.\<close>

record Stats =
  added :: nat
  updated :: nat
  unchanged :: nat
  removed :: nat
  errors :: nat

definition stats0 :: Stats where
  "stats0 = \<lparr>added = 0, updated = 0, unchanged = 0, removed = 0, errors = 0\<rparr>"

text \<open>\<open>generate_uid(prefix)\<close>, with the twelve hex digits drawn from \<open>uuid4\<close> given.\<close>

definition generate_uid :: "string \<Rightarrow> string \<Rightarrow> string" where
  "generate_uid prefix hex12 = prefix @ ''_'' @ hex12"

text \<open>The value stored under the metadata key \<open>validation\<close>.\<close>

definition validation_entry :: "DataStatus \<Rightarrow> string list \<Rightarrow> string \<Rightarrow> json" where
  "validation_entry st msgs now =
     JObj [(''status'', JStr (status_value st)), (''messages'', JList (map JStr msgs)),
           (''checked_at'', JStr now)]"

text \<open>
  The loop \<open>for child_uid in existing.child_uids: self.registry.mark_stale(child_uid)\<close>
  of \<open>scan\<close>. Each call commits on its own; the first one that raises ends the loop,
  and what the earlier calls wrote stays.
\<close>

fun mark_children_stale :: "nat \<Rightarrow> string \<Rightarrow> Registry \<Rightarrow> string list \<Rightarrow> Registry \<times> error option" where
  "mark_children_stale depth now db [] = (db, None)"
| "mark_children_stale depth now db (c # cs) =
     (case mark_stale depth now db c of
        Inl err \<Rightarrow> (db, Some err)
      | Inr db' \<Rightarrow> mark_children_stale depth now db' cs)"

text \<open>
  The body of the loop over the files in \<open>scan\<close>, with its \<open>try\<close>/\<open>except\<close>: an
  exception (\<open>stat\<close> failing, \<open>mark_stale\<close> raising) is counted under
  \<open>errors\<close> and the pass goes on. \<open>fresh\<close> is the hex string \<open>generate_uid\<close>
  draws if the file is new.
\<close>

definition scan_file :: "Config \<Rightarrow> nat \<Rightarrow> string \<Rightarrow> string \<Rightarrow> Entry \<Rightarrow> Registry \<times> Stats \<Rightarrow> Registry \<times> Stats" where
  "scan_file cfg depth now fresh e acc =
     (case acc of (db, stats) \<Rightarrow>
       (case st_size e of
          None \<Rightarrow> (db, stats\<lparr>errors := errors stats + 1\<rparr>)
        | Some sz \<Rightarrow>
            (let hash_val = hash_file cfg e;
                 category = categorize_file cfg (rel e);
                 existing = get_by_path db (rel e);
                 validation = validate_json_file (rel e) e;
                 validation_status = fst validation;
                 validation_messages = snd validation
             in case existing of
                  Some ex \<Rightarrow>
                    if (case hash_val of None \<Rightarrow> True | Some h \<Rightarrow> hash_sha256 ex \<noteq> h)
                       \<or> size_bytes ex \<noteq> sz
                    then
                      (let ex' = ex\<lparr>hash_sha256 := (case hash_val of None \<Rightarrow> [] | Some h \<Rightarrow> h),
                                     size_bytes := sz,
                                     modified_at := now,
                                     version := version ex + 1,
                                     status := validation_status,
                                     metadata :=
                                       (if validation_messages \<noteq> []
                                        then AList.update ''validation''
                                               (validation_entry validation_status validation_messages now)
                                               (metadata ex)
                                        else metadata ex)\<rparr>
                       in case mark_children_stale depth now (register now db ex') (child_uids ex) of
                            (db', None) \<Rightarrow> (db', stats\<lparr>updated := updated stats + 1\<rparr>)
                          | (db', Some err) \<Rightarrow> (db', stats\<lparr>errors := errors stats + 1\<rparr>))
                    else (db, stats\<lparr>unchanged := unchanged stats + 1\<rparr>)
                | None \<Rightarrow>
                    (let record =
                           \<lparr>uid = generate_uid (take 4 (category_value category)) fresh,
                            path = rel e, category = category, status = validation_status,
                            size_bytes = sz,
                            hash_sha256 = (case hash_val of None \<Rightarrow> [] | Some h \<Rightarrow> h),
                            created_at = now, modified_at = now, version = 1,
                            parent_uids = [], child_uids = [],
                            metadata =
                              (if validation_messages \<noteq> []
                               then [(''validation'',
                                      validation_entry validation_status validation_messages now)]
                               else []),
                            schema_uid = None\<rparr>
                     in (register now db record, stats\<lparr>added := added stats + 1\<rparr>)))))"

text \<open>The second loop of \<open>scan\<close>: a record whose path was not seen is deleted.\<close>

definition remove_unseen :: "string \<Rightarrow> string list \<Rightarrow> DataRecord \<Rightarrow> Registry \<times> Stats \<Rightarrow> Registry \<times> Stats" where
  "remove_unseen now seen_paths record acc =
     (case acc of (db, stats) \<Rightarrow>
        if path record \<notin> set seen_paths
        then (delete now db (uid record), stats\<lparr>removed := removed stats + 1\<rparr>)
        else (db, stats))"

text \<open>
  \<open>scan\<close>: one pass over the tree under the root. \<open>fresh\<close> gives, for each path,
  the hex string drawn if the path is new.
\<close>

definition scan :: "Config \<Rightarrow> nat \<Rightarrow> string \<Rightarrow> (string \<Rightarrow> string) \<Rightarrow> Registry \<Rightarrow> Entry list \<Rightarrow> Registry \<times> Stats" where
  "scan cfg depth now fresh db tree =
     (let files = walk_all cfg tree;
          seen_paths = map rel files;
          after_files = fold (\<lambda>p. scan_file cfg depth now (fresh (rel p)) p) files (db, stats0);
          all_records = query (fst after_files) None None 100000
      in fold (remove_unseen now seen_paths) all_records after_files)"

section \<open>The supervised listener\<close>

text \<open>
  The listener of \<open>F22DataManager\<close> and its supervisor. A listener (an
  \<open>HTTPServer\<close> bound to the port, with the thread that runs \<open>serve_forever\<close>) is
  named by a number, the count of listeners bound before it. \<open>server\<close> and
  \<open>server_thread\<close> are the attributes of the manager, \<open>alive\<close> lists the threads
  that are running, \<open>bound\<close> counts the listeners bound so far.
\<close>

datatype supervisor_pc =
  LoopTop | Joining nat | Backoff | Returned

record Manager =
  stop_event :: bool
  server_enabled :: bool
  server :: "nat option"
  server_thread :: "nat option"
  alive :: "nat list"
  bound :: nat
  restart_delay :: nat
  pc :: supervisor_pc

text \<open>
  \<open>_start_server\<close>: binds a new listener and starts its thread; \<open>bind_ok\<close> tells
  whether the bind succeeds. When it fails both attributes are reset and the exception
  is raised again (the second component of the result).
\<close>

definition start_server :: "bool \<Rightarrow> Manager \<Rightarrow> Manager \<times> bool" where
  "start_server bind_ok m =
     (if bind_ok
      then (m\<lparr>server := Some (bound m), server_thread := Some (bound m),
               alive := bound m # alive m, bound := bound m + 1\<rparr>, True)
      else (m\<lparr>server := None, server_thread := None\<rparr>, False))"

text \<open>\<open>server.shutdown()\<close> and \<open>server.server_close()\<close>: the serving thread ends.\<close>

definition shutdown :: "Manager \<Rightarrow> Manager" where
  "shutdown m =
     (case server m of
        None \<Rightarrow> m
      | Some s \<Rightarrow> m\<lparr>alive := filter (\<lambda>t. t \<noteq> s) (alive m), server := None\<rparr>)"

text \<open>
  The control operations. \<open>stop_http_server\<close> clears the enabled flag and tears the
  listener down; \<open>restart_http_server\<close> sets the flag and tears the listener down, for
  the supervisor to bind a new one; \<open>start_http_server\<close> sets the flag and binds a
  listener unless the thread of one is alive.
\<close>

definition stop_http_server :: "Manager \<Rightarrow> Manager" where
  "stop_http_server m = shutdown (m\<lparr>server_enabled := False\<rparr>)"

definition restart_http_server :: "Manager \<Rightarrow> Manager" where
  "restart_http_server m = shutdown (m\<lparr>server_enabled := True\<rparr>)"

definition start_http_server :: "bool \<Rightarrow> Manager \<Rightarrow> Manager" where
  "start_http_server bind_ok m =
     (let m1 = m\<lparr>server_enabled := True\<rparr>
      in case server_thread m1 of
           None \<Rightarrow> fst (start_server bind_ok m1)
         | Some t \<Rightarrow> if t \<in> set (alive m1) then m1 else fst (start_server bind_ok m1))"

text \<open>
  \<open>supervisor_loop\<close>, one stretch at a time: from one point where the supervisor
  sleeps or waits (\<open>time.sleep\<close>, \<open>t.join(timeout=1.0)\<close>) to the next. \<open>LoopTop\<close>
  is the test of the \<open>while\<close> loop, reached after \<open>time.sleep(0.5)\<close> or a
  \<open>continue\<close>; \<open>Joining t\<close> is the wait in \<open>t.join\<close>; \<open>Backoff\<close> is
  \<open>time.sleep(restart_delay)\<close>.
\<close>

definition supervisor_step :: "bool \<Rightarrow> Manager \<Rightarrow> Manager" where
  "supervisor_step bind_ok m =
     (case pc m of
        Returned \<Rightarrow> m
      | LoopTop \<Rightarrow>
          if stop_event m then m\<lparr>pc := Returned\<rparr>
          else if \<not> server_enabled m then m
          else (case server_thread m of None \<Rightarrow> m | Some t \<Rightarrow> m\<lparr>pc := Joining t\<rparr>)
      | Joining t \<Rightarrow>
          if stop_event m then m\<lparr>pc := Returned\<rparr>
          else if t \<in> set (alive m) then m\<lparr>pc := LoopTop\<rparr>
          else if \<not> server_enabled m then m\<lparr>pc := LoopTop\<rparr>
          else if server_thread m \<noteq> Some t \<and>
                  (case server_thread m of None \<Rightarrow> False | Some t' \<Rightarrow> t' \<in> set (alive m))
               then m\<lparr>restart_delay := 1, pc := LoopTop\<rparr>
          else m\<lparr>pc := Backoff\<rparr>
      | Backoff \<Rightarrow>
          if stop_event m then m\<lparr>pc := Returned\<rparr>
          else
            (case start_server bind_ok (m\<lparr>server := None\<rparr>) of
               (m', True) \<Rightarrow> m'\<lparr>restart_delay := 1, pc := LoopTop\<rparr>
             | (m', False) \<Rightarrow> m'\<lparr>restart_delay := min 15 (restart_delay m * 2), pc := LoopTop\<rparr>))"

text \<open>
  What can happen next: the supervisor runs its next stretch, one of the control
  operations runs, or the thread of the listener dies.
\<close>

datatype event =
  Supervisor bool | Stop | Start bool | Restart | WorkerDies

fun step :: "event \<Rightarrow> Manager \<Rightarrow> Manager" where
  "step (Supervisor bind_ok) m = supervisor_step bind_ok m"
| "step Stop m = stop_http_server m"
| "step (Start bind_ok) m = start_http_server bind_ok m"
| "step Restart m = restart_http_server m"
| "step WorkerDies m =
     (case server_thread m of
        None \<Rightarrow> m
      | Some t \<Rightarrow> m\<lparr>alive := filter (\<lambda>t'. t' \<noteq> t) (alive m)\<rparr>)"

definition run :: "event list \<Rightarrow> Manager \<Rightarrow> Manager" where
  "run evs m = fold step evs m"

section \<open>Notions used to state the properties\<close>

text \<open>The lineage table as a list of edges from parent to child.\<close>

definition edge_pairs :: "Lineage list \<Rightarrow> (string \<times> string) list" where
  "edge_pairs es = map (\<lambda>e. (parent_uid e, child_uid e)) es"

text \<open>
  No cycle of the lineage graph can be reached from \<open>u\<close>: neither \<open>u\<close> nor any
  record below it is its own descendant.
\<close>

definition no_cycle_below :: "Lineage list \<Rightarrow> string \<Rightarrow> bool" where
  "no_cycle_below es u =
     (\<forall>v \<in> insert u ((set (edge_pairs es))\<^sup>+ `` {u}). (v, v) \<notin> (set (edge_pairs es))\<^sup>+)"

text \<open>The rows with status \<open>stale\<close> set on every row whose uid is in \<open>S\<close>.\<close>

definition mark_rows_stale :: "string set \<Rightarrow> Row list \<Rightarrow> Row list" where
  "mark_rows_stale S rows = map (\<lambda>r. if col_uid r \<in> S then r\<lparr>col_status := STALE\<rparr> else r) rows"

text \<open>
  The audit log read as the trace of the registry calls: the action and the target of
  every entry, oldest first.
\<close>

definition audit_trace :: "Registry \<Rightarrow> (string \<times> string option) list" where
  "audit_trace db = map (\<lambda>a. (action a, target_uid a)) (audit_log db)"

text \<open>
  The spec's words: two keys are equal up to ASCII letter case and a leading \<open>#\<close>
  when, without a leading \<open>#\<close>, they have the same length and at every position the
  same character or the same ASCII letter in the other case.
\<close>

definition strip_leading_hash :: "string \<Rightarrow> string" where
  "strip_leading_hash s = (case s of [] \<Rightarrow> [] | c # r \<Rightarrow> if c = CHR ''#'' then r else s)"

definition same_letter :: "char \<Rightarrow> char \<Rightarrow> bool" where
  "same_letter a b =
     (a = b
      \<or> (65 \<le> (of_char a :: nat) \<and> (of_char a :: nat) \<le> 90 \<and> (of_char b :: nat) = of_char a + 32)
      \<or> (65 \<le> (of_char b :: nat) \<and> (of_char b :: nat) \<le> 90 \<and> (of_char a :: nat) = of_char b + 32))"

definition equal_up_to_case_and_hash :: "string \<Rightarrow> string \<Rightarrow> bool" where
  "equal_up_to_case_and_hash k1 k2 =
     list_all2 same_letter (strip_leading_hash k1) (strip_leading_hash k2)"

text \<open>The control operations that enable the listener again.\<close>

fun enables :: "event \<Rightarrow> bool" where
  "enables (Start bind_ok) = True"
| "enables Restart = True"
| "enables ev = False"

section \<open>Example inputs\<close>

text \<open>A row and a lineage edge with the given keys.\<close>

definition ex_row :: "string \<Rightarrow> string \<Rightarrow> Row" where
  "ex_row u p =
     \<lparr>col_uid = u, col_path = p, col_category = SOURCE, col_status = VALID, col_size = 10,
      col_hash_sha256 = ''h0'', col_created_at = ''t0'', col_modified_at = ''t0'',
      col_version = 1, col_metadata = [], col_schema_uid = None\<rparr>"

definition ex_edge :: "string \<Rightarrow> string \<Rightarrow> Lineage" where
  "ex_edge p c =
     \<lparr>parent_uid = p, child_uid = c, relationship = ''derived_from'', edge_created_at = ''t0''\<rparr>"

text \<open>Three records in a chain: \<open>u\<close> is the parent of \<open>c1\<close>, \<open>c1\<close> of \<open>c2\<close>.\<close>

definition db_chain :: Registry where
  "db_chain =
     \<lparr>data_records = [ex_row ''u'' ''a.json'', ex_row ''c1'' ''b.json'', ex_row ''c2'' ''c.json''],
      lineage = [ex_edge ''u'' ''c1'', ex_edge ''c1'' ''c2''],
      audit_log = []\<rparr>"

text \<open>The same chain closed into a cycle: \<open>c2\<close> is also a parent of \<open>u\<close>.\<close>

definition db_cycle :: Registry where
  "db_cycle = db_chain\<lparr>lineage := lineage db_chain @ [ex_edge ''c2'' ''u'']\<rparr>"

text \<open>The chain, and beside it a record \<open>z\<close> that is its own parent.\<close>

definition db_side_cycle :: Registry where
  "db_side_cycle =
     db_chain\<lparr>data_records := data_records db_chain @ [ex_row ''z'' ''z.json''],
              lineage := lineage db_chain @ [ex_edge ''z'' ''z'']\<rparr>"

text \<open>A diamond: \<open>d\<close> derives from \<open>a\<close> through \<open>b\<close> and through \<open>c\<close>.\<close>

definition db_diamond :: Registry where
  "db_diamond =
     \<lparr>data_records = [ex_row ''a'' ''a.json'', ex_row ''b'' ''b.json'', ex_row ''c'' ''c.json'',
                      ex_row ''d'' ''d.json''],
      lineage = [ex_edge ''a'' ''b'', ex_edge ''a'' ''c'', ex_edge ''b'' ''d'', ex_edge ''c'' ''d''],
      audit_log = []\<rparr>"

text \<open>A record to register: \<open>c2\<close> at version 7, with a parent named twice.\<close>

definition ex_record :: DataRecord where
  "ex_record =
     \<lparr>uid = ''c2'', path = ''c.json'', category = DERIVED, status = VALID, size_bytes = 12,
      hash_sha256 = ''h1'', created_at = ''t0'', modified_at = ''t1'', version = 7,
      parent_uids = [''c1'', ''u'', ''c1''], child_uids = [], metadata = [],
      schema_uid = None\<rparr>"

text \<open>The record \<open>get\<close> returns for \<open>u\<close> in \<open>db_chain\<close>, and the file of \<open>u\<close> with new bytes.\<close>

definition rec_u :: DataRecord where
  "rec_u =
     \<lparr>uid = ''u'', path = ''a.json'', category = SOURCE, status = VALID, size_bytes = 10,
      hash_sha256 = ''h0'', created_at = ''t0'', modified_at = ''t0'', version = 1,
      parent_uids = [], child_uids = [''c1''], metadata = [], schema_uid = None\<rparr>"

definition file_changed :: Entry where
  "file_changed =
     \<lparr>rel = ''a.json'', is_dir = False, st_size = Some 12, sha256_hex = Some ''h9'',
      parsed_json = None\<rparr>"

text \<open>
  A file of 60000000 bytes, above the 50 MB of \<open>hash_max_mb\<close>; the record that
  tracks it with the empty digest, as parent of \<open>x\<close> and \<open>y\<close>; a registry that holds
  them; and the same registry where \<open>x\<close> is also its own parent.
\<close>

definition file_big :: Entry where
  "file_big =
     \<lparr>rel = ''big.bin'', is_dir = False, st_size = Some 60000000, sha256_hex = Some ''ff'',
      parsed_json = None\<rparr>"

definition rec_p :: DataRecord where
  "rec_p =
     \<lparr>uid = ''p'', path = ''big.bin'', category = SOURCE, status = VALID,
      size_bytes = 60000000, hash_sha256 = [], created_at = ''t0'', modified_at = ''t0'',
      version = 1, parent_uids = [], child_uids = [''x'', ''y''], metadata = [],
      schema_uid = None\<rparr>"

definition db_big_file :: Registry where
  "db_big_file =
     \<lparr>data_records = [row_of rec_p, ex_row ''x'' ''x.json'', ex_row ''y'' ''y.json''],
      lineage = [ex_edge ''p'' ''x'', ex_edge ''p'' ''y''],
      audit_log = []\<rparr>"

definition db_big_file_loop :: Registry where
  "db_big_file_loop =
     db_big_file\<lparr>lineage := [ex_edge ''p'' ''x'', ex_edge ''x'' ''x'', ex_edge ''p'' ''y'']\<rparr>"

text \<open>A registry of 100001 records with distinct uids and paths.\<close>

definition db_big :: Registry where
  "db_big =
     \<lparr>data_records = map (\<lambda>n. ex_row (replicate n CHR ''x'') (replicate n CHR ''x'' @ ''.json''))
                        [0..<100001],
      lineage = [], audit_log = []\<rparr>"

text \<open>A root that holds one directory and no file.\<close>

definition tree_no_files :: "Entry list" where
  "tree_no_files =
     [\<lparr>rel = ''data'', is_dir = True, st_size = Some 0, sha256_hex = None, parsed_json = None\<rparr>]"

text \<open>A touch zone stored with the colour key \<open>#AaBbCc\<close>.\<close>

definition zone_example :: "int TouchZone" where
  "zone_example =
     \<lparr>tz_uid = ''z1'', tz_component_uid = ''wing'', tz_label = ''Left wing'',
      color_hex = ''#AaBbCc'', vertices = [(0, 0), (4, 0), (4, 2)], center_x = 2, center_y = 1,
      area = 4, tz_metadata = []\<rparr>"

text \<open>
  The manager after \<open>_start_server_supervised\<close>: the first listener is bound and
  served, the supervisor is about to enter its loop.
\<close>

definition manager_running :: Manager where
  "manager_running =
     \<lparr>stop_event = False, server_enabled = True, server = Some 0, server_thread = Some 0,
      alive = [0], bound = 1, restart_delay = 1, pc = LoopTop\<rparr>"

section \<open>register and get\<close>

lemma find_replace_row: "find (\<lambda>x. col_uid x = col_uid r) (replace_row r rows) = Some r"
  by (induction rows) (auto simp: replace_row_def)

lemma replace_row_twice: "col_uid r' = col_uid r \<Longrightarrow> replace_row r' (replace_row r rows) = replace_row r' rows"
  by (simp add: replace_row_def)


lemma insert_edge_append:
  "\<forall>e \<in> set es0. child_uid e \<noteq> u \<Longrightarrow> insert_edge now u p (es0 @ acc) = es0 @ insert_edge now u p acc"
  by (auto simp: insert_edge_def list_ex_iff)

lemma fold_insert_edge_append:
  "\<forall>e \<in> set es0. child_uid e \<noteq> u \<Longrightarrow>
   fold (insert_edge now u) ps (es0 @ acc) = es0 @ fold (insert_edge now u) ps acc"
  by (induction ps arbitrary: acc) (simp_all add: insert_edge_append)

lemma fold_insert_edge_child:
  "\<forall>e \<in> set acc. child_uid e = u \<Longrightarrow> \<forall>e \<in> set (fold (insert_edge now u) ps acc). child_uid e = u"
proof (induction ps arbitrary: acc)
  case Nil then show ?case by simp
next
  case (Cons p ps)
  have "\<forall>e \<in> set (insert_edge now u p acc). child_uid e = u"
    using Cons.prems by (auto simp: insert_edge_def)
  then show ?case using Cons.IH by simp
qed

lemma fold_insert_edge_distinct:
  "distinct (map parent_uid acc) \<Longrightarrow> \<forall>e \<in> set acc. child_uid e = u \<Longrightarrow>
   distinct (map parent_uid (fold (insert_edge now u) ps acc))"
proof (induction ps arbitrary: acc)
  case Nil then show ?case by simp
next
  case (Cons p ps)
  have "distinct (map parent_uid (insert_edge now u p acc))"
    using Cons.prems by (auto simp: insert_edge_def list_ex_iff)
  moreover have "\<forall>e \<in> set (insert_edge now u p acc). child_uid e = u"
    using Cons.prems by (auto simp: insert_edge_def)
  ultimately show ?case using Cons.IH by simp
qed

lemma fold_insert_edge_replay:
  "distinct (map parent_uid ys) \<Longrightarrow> \<forall>e \<in> set ys. child_uid e = u \<Longrightarrow>
   \<forall>e \<in> set acc. child_uid e = u \<Longrightarrow> \<forall>e \<in> set acc. \<forall>y \<in> set ys. parent_uid e \<noteq> parent_uid y \<Longrightarrow>
   edge_pairs (fold (insert_edge now u) (map parent_uid ys) acc) = edge_pairs (acc @ ys)"
proof (induction ys arbitrary: acc)
  case Nil then show ?case by simp
next
  case (Cons y ys)
  let ?new = "\<lparr>parent_uid = parent_uid y, child_uid = u, relationship = ''derived_from'', edge_created_at = now\<rparr>"
  have "\<not> list_ex (\<lambda>e. parent_uid e = parent_uid y \<and> child_uid e = u) acc"
    using Cons.prems(4) unfolding list_ex_iff by simp
  then have ins: "insert_edge now u (parent_uid y) acc = acc @ [?new]"
    by (simp add: insert_edge_def)
  have d: "distinct (map parent_uid ys)" and c: "\<forall>e \<in> set ys. child_uid e = u"
    using Cons.prems(1,2) by simp_all
  have c': "\<forall>e \<in> set (acc @ [?new]). child_uid e = u"
    using Cons.prems(3) by simp
  have p': "\<forall>e \<in> set (acc @ [?new]). \<forall>y \<in> set ys. parent_uid e \<noteq> parent_uid y"
    using Cons.prems(1,4) by auto
  have "edge_pairs (fold (insert_edge now u) (map parent_uid ys) (acc @ [?new])) = edge_pairs ((acc @ [?new]) @ ys)"
    by (rule Cons.IH[OF d c c' p'])
  moreover have "child_uid y = u" using Cons.prems(2) by simp
  ultimately show ?case by (simp add: ins edge_pairs_def)
qed

text \<open>
  C3. Registering a record, reading it back with \<open>get\<close> and registering the copy
  read back leaves the stored record unchanged: \<open>get\<close> returns a record with the
  columns the caller supplied (its \<open>version\<close> among them), the second
  \<open>register\<close> leaves the table \<open>data_records\<close> and the lineage edges as the
  first one left them, and \<open>get\<close> returns the same record again. Only the audit
  log and the edges' \<open>created_at\<close> stamps show the second call.
\<close>

theorem register_get_register:
  "\<exists>r'. get (register now db r) (uid r) = Some r'
      \<and> row_of r' = row_of r \<and> version r' = version r
      \<and> data_records (register now' (register now db r) r') = data_records (register now db r)
      \<and> edge_pairs (lineage (register now' (register now db r) r')) = edge_pairs (lineage (register now db r))
      \<and> get (register now' (register now db r) r') (uid r) = Some r'"
proof -
  let ?u = "uid r"
  let ?es0 = "delete_parent_edges ?u (lineage db)"
  let ?X = "fold (insert_edge now ?u) (parent_uids r) []"
  let ?db1 = "register now db r"
  have es0: "\<forall>e \<in> set ?es0. child_uid e \<noteq> ?u" by (simp add: delete_parent_edges_def)
  have lin1: "lineage ?db1 = ?es0 @ ?X"
    using fold_insert_edge_append[OF es0, of now "parent_uids r" "[]"]
    by (simp add: register_def audit_def)
  have Xc: "\<forall>e \<in> set ?X. child_uid e = ?u" by (rule fold_insert_edge_child) simp
  have Xd: "distinct (map parent_uid ?X)" by (rule fold_insert_edge_distinct) simp_all
  have rows1: "data_records ?db1 = replace_row (row_of r) (data_records db)"
    by (simp add: register_def audit_def)
  have uid_row: "col_uid (row_of r) = ?u" by (simp add: row_of_def)
  define r' where "r' = r\<lparr>parent_uids := parents_of (lineage ?db1) ?u, child_uids := children_of (lineage ?db1) ?u\<rparr>"
  have g1: "get ?db1 ?u = Some r'"
    using find_replace_row[of "row_of r" "data_records db"]
    by (simp add: get_def rows1 uid_row r'_def) (simp add: row_of_def)
  have rr: "row_of r' = row_of r" by (simp add: r'_def row_of_def)
  have ur: "uid r' = ?u" by (simp add: r'_def)
  have vr: "version r' = version r" by (simp add: r'_def)
  have par: "parent_uids r' = map parent_uid ?X"
    using es0 Xc by (simp add: r'_def lin1 parents_of_def filter_id_conv)
  have lin2: "edge_pairs (lineage (register now' ?db1 r')) = edge_pairs (lineage ?db1)"
  proof -
    have d: "delete_parent_edges ?u (lineage ?db1) = ?es0"
      using es0 Xc by (simp add: lin1 delete_parent_edges_def filter_id_conv)
    have "lineage (register now' ?db1 r') = ?es0 @ fold (insert_edge now' ?u) (map parent_uid ?X) []"
      using fold_insert_edge_append[OF es0, of now' "map parent_uid ?X" "[]"]
      by (simp add: register_def[of now' ?db1 r'] audit_def ur par d)
    moreover have "edge_pairs (fold (insert_edge now' ?u) (map parent_uid ?X) []) = edge_pairs ([] @ ?X)"
      using Xd Xc by (intro fold_insert_edge_replay) simp_all
    ultimately show ?thesis by (simp add: lin1 edge_pairs_def)
  qed
  have rows2: "data_records (register now' ?db1 r') = data_records ?db1"
    by (simp add: register_def[of now' ?db1 r'] audit_def rr rows1 replace_row_twice)
  have pc: "parents_of es v = map fst (filter (\<lambda>p. snd p = v) (edge_pairs es))"
           "children_of es v = sort (map snd (filter (\<lambda>p. fst p = v) (edge_pairs es)))" for es v
    by (simp_all add: parents_of_def children_of_def edge_pairs_def filter_map comp_def)
  have pe: "parents_of (lineage (register now' ?db1 r')) ?u = parents_of (lineage ?db1) ?u"
           "children_of (lineage (register now' ?db1 r')) ?u = children_of (lineage ?db1) ?u"
    unfolding pc lin2 by simp_all
  have g2: "get (register now' ?db1 r') ?u = Some r'"
    using g1 unfolding get_def rows2 pe by simp
  show ?thesis
    apply (rule exI[of _ r'])
    apply (simp only: g1 rr vr rows2 lin2 g2)
    done
qed

theorem register_get_register_witness:
  "get (register ''t1'' db_chain ex_record) ''c2'' =
     Some (ex_record\<lparr>parent_uids := [''c1'', ''u'']\<rparr>)
   \<and> col_version (last (data_records (register ''t1'' db_chain ex_record))) = 7
   \<and> data_records (register ''t2'' (register ''t1'' db_chain ex_record)
                        (ex_record\<lparr>parent_uids := [''c1'', ''u'']\<rparr>)) =
       data_records (register ''t1'' db_chain ex_record)
   \<and> get (register ''t2'' (register ''t1'' db_chain ex_record)
              (ex_record\<lparr>parent_uids := [''c1'', ''u'']\<rparr>)) ''c2'' =
       Some (ex_record\<lparr>parent_uids := [''c1'', ''u'']\<rparr>)"
  using register_get_register [of "''t1''" db_chain ex_record "''t2''"]
  by (simp add: register_def audit_def get_def row_of_def replace_row_def insert_edge_def
      delete_parent_edges_def parents_of_def children_of_def db_chain_def ex_record_def
      ex_row_def ex_edge_def)


section \<open>delete\<close>

text \<open>
  C5. \<open>delete(uid)\<close> removes the row of \<open>uid\<close>, removes every lineage edge
  with \<open>uid\<close> as parent or as child and no other edge, appends exactly one audit
  entry, and leaves every other row, the rows of the children of \<open>uid\<close> among
  them, in the table with its columns unchanged.
\<close>

theorem delete_removes_row_and_edges:
  "get (delete now db u) u = None
   \<and> (\<forall>r \<in> set (data_records (delete now db u)). col_uid r \<noteq> u)
   \<and> filter (\<lambda>r. col_uid r \<noteq> u) (data_records (delete now db u)) =
       filter (\<lambda>r. col_uid r \<noteq> u) (data_records db)
   \<and> (\<forall>e \<in> set (lineage (delete now db u)). parent_uid e \<noteq> u \<and> child_uid e \<noteq> u)
   \<and> filter (\<lambda>e. parent_uid e \<noteq> u \<and> child_uid e \<noteq> u) (lineage (delete now db u)) =
       filter (\<lambda>e. parent_uid e \<noteq> u \<and> child_uid e \<noteq> u) (lineage db)
   \<and> audit_log (delete now db u) =
       audit_log db @ [\<lparr>timestamp = now, action = ''delete'', target_uid = Some u,
                         actor = ''system'', details = []\<rparr>]"
proof -
  have "find (\<lambda>r. col_uid r = u) (filter (\<lambda>r. col_uid r \<noteq> u) rows) = None" for rows :: "Row list"
    by (induction rows) simp_all
  then have "get (delete now db u) u = None"
    by (simp add: get_def delete_def audit_def)
  moreover have "filter (\<lambda>e. parent_uid e \<noteq> u \<and> child_uid e \<noteq> u) (lineage (delete now db u)) =
       filter (\<lambda>e. parent_uid e \<noteq> u \<and> child_uid e \<noteq> u) (lineage db)"
    by (simp add: delete_def audit_def)
  ultimately show ?thesis
    by (simp add: delete_def audit_def)
qed

theorem delete_removes_row_and_edges_witness:
  "get (delete ''t1'' db_chain ''c1'') ''c1'' = None
   \<and> data_records (delete ''t1'' db_chain ''c1'') = [ex_row ''u'' ''a.json'', ex_row ''c2'' ''c.json'']
   \<and> lineage (delete ''t1'' db_chain ''c1'') = []
   \<and> length (audit_log (delete ''t1'' db_chain ''c1'')) = 1"
  using delete_removes_row_and_edges [of "''t1''" db_chain "''c1''"]
  by (simp add: delete_def audit_def db_chain_def ex_row_def ex_edge_def)

section \<open>mark\_stale and the descendants of a record\<close>

lemma fold_collect_None:
  "fold (\<lambda>child acc. case acc of None \<Rightarrow> None
           | Some ds \<Rightarrow> (case g child of None \<Rightarrow> None | Some sub \<Rightarrow> Some (ds @ [child] @ sub)))
     cs None = None"
  by (induction cs) simp_all

lemma fold_collect:
  "fold (\<lambda>child acc. case acc of None \<Rightarrow> None
           | Some ds \<Rightarrow> (case g child of None \<Rightarrow> None | Some sub \<Rightarrow> Some (ds @ [child] @ sub)))
     cs (Some acc) =
   (if list_all (\<lambda>c. g c \<noteq> None) cs
    then Some (acc @ concat (map (\<lambda>c. c # the (g c)) cs)) else None)"
proof (induction cs arbitrary: acc)
  case Nil then show ?case by simp
next
  case (Cons c cs)
  show ?case
  proof (cases "g c")
    case None then show ?thesis by (simp add: fold_collect_None)
  next
    case (Some sub) then show ?thesis by (simp add: Cons.IH)
  qed
qed

lemma get_descendants_Suc:
  "get_descendants (Suc n) es u =
     (if list_all (\<lambda>c. get_descendants n es c \<noteq> None) (children_of es u)
      then Some (concat (map (\<lambda>c. c # the (get_descendants n es c)) (children_of es u)))
      else None)"
  by (simp add: fold_collect)

declare get_descendants.simps(2) [simp del]

lemma set_children_of: "set (children_of es u) = set (edge_pairs es) `` {u}"
  by (auto simp: children_of_def edge_pairs_def Image_def)

text \<open>
  The children of a record are read in the order of their uids, whatever the order the
  edges were inserted in; the parents are read in the order of insertion.
\<close>

lemma children_of_key_order:
  "children_of [ex_edge ''p'' ''y'', ex_edge ''q'' ''a'', ex_edge ''p'' ''x'', ex_edge ''p'' ''X1''] ''p'' =
     [''X1'', ''x'', ''y'']"
  by (simp add: children_of_def ex_edge_def)

lemma parents_of_rowid_order:
  "parents_of [ex_edge ''q'' ''k'', ex_edge ''b'' ''k'', ex_edge ''p2'' ''j'', ex_edge ''a'' ''k''] ''k'' =
     [''q'', ''b'', ''a'']"
  by (simp add: parents_of_def ex_edge_def)

lemma get_descendants_mono:
  "get_descendants n es u = Some ds \<Longrightarrow> get_descendants (Suc n) es u = Some ds"
proof (induction n arbitrary: u ds)
  case 0 then show ?case by simp
next
  case (Suc n)
  from Suc.prems have all: "list_all (\<lambda>c. get_descendants n es c \<noteq> None) (children_of es u)"
    and ds: "ds = concat (map (\<lambda>c. c # the (get_descendants n es c)) (children_of es u))"
    by (auto simp: get_descendants_Suc split: if_splits)
  have step: "\<forall>c \<in> set (children_of es u). get_descendants (Suc n) es c = get_descendants n es c"
    using all Suc.IH by (auto simp: list_all_iff)
  then have a: "list_all (\<lambda>c. get_descendants (Suc n) es c \<noteq> None) (children_of es u)"
    using all by (simp add: list_all_iff)
  have m: "map (\<lambda>c. c # the (get_descendants (Suc n) es c)) (children_of es u) =
           map (\<lambda>c. c # the (get_descendants n es c)) (children_of es u)"
    using step by (intro map_cong) simp_all
  have "get_descendants (Suc (Suc n)) es u =
        Some (concat (map (\<lambda>c. c # the (get_descendants (Suc n) es c)) (children_of es u)))"
    using a by (simp only: get_descendants_Suc[of "Suc n"] if_True)
  then show ?case unfolding m ds .
qed

lemma get_descendants_add:
  "get_descendants n es u = Some ds \<Longrightarrow> get_descendants (n + k) es u = Some ds"
  by (induction k) (simp_all add: get_descendants_mono)

lemma get_descendants_set:
  "get_descendants n es u = Some ds \<Longrightarrow> set ds = (set (edge_pairs es))\<^sup>+ `` {u}"
proof (induction n arbitrary: u ds)
  case 0 then show ?case by simp
next
  case (Suc n)
  let ?E = "set (edge_pairs es)"
  from Suc.prems have all: "list_all (\<lambda>c. get_descendants n es c \<noteq> None) (children_of es u)"
    and ds: "ds = concat (map (\<lambda>c. c # the (get_descendants n es c)) (children_of es u))"
    by (auto simp: get_descendants_Suc split: if_splits)
  have sub: "set (the (get_descendants n es c)) = ?E\<^sup>+ `` {c}" if "c \<in> ?E `` {u}" for c
    using all that Suc.IH[of c] by (auto simp: list_all_iff set_children_of)
  have "set ds = (\<Union>c \<in> ?E `` {u}. insert c (?E\<^sup>+ `` {c}))"
    using sub by (simp add: ds set_children_of)
  also have "\<dots> = ?E\<^sup>+ `` {u}"
  proof (intro set_eqI iffI)
    fix x assume "x \<in> (\<Union>c \<in> ?E `` {u}. insert c (?E\<^sup>+ `` {c}))"
    then show "x \<in> ?E\<^sup>+ `` {u}" by (auto intro: trancl_into_trancl2)
  next
    fix x assume "x \<in> ?E\<^sup>+ `` {u}"
    then have "(u, x) \<in> ?E\<^sup>+" by simp
    then show "x \<in> (\<Union>c \<in> ?E `` {u}. insert c (?E\<^sup>+ `` {c}))"
      by (cases rule: converse_tranclE) auto
  qed
  finally show ?case .
qed

lemma no_cycle_below_reach:
  "no_cycle_below es u \<Longrightarrow> (u, v) \<in> (set (edge_pairs es))\<^sup>* \<Longrightarrow> (v, v) \<notin> (set (edge_pairs es))\<^sup>+"
  unfolding no_cycle_below_def by (auto simp: rtrancl_eq_or_trancl)

lemma no_cycle_below_step:
  "no_cycle_below es u \<Longrightarrow> (u, c) \<in> (set (edge_pairs es))\<^sup>* \<Longrightarrow> no_cycle_below es c"
  unfolding no_cycle_below_def
  by (auto simp: rtrancl_eq_or_trancl intro: trancl_trans trancl_into_trancl)

lemma acyclic_no_cycle_below: "acyclic (set (edge_pairs es)) \<Longrightarrow> no_cycle_below es u"
  by (simp add: no_cycle_below_def acyclic_def)

lemma get_descendants_no_cycle:
  assumes "no_cycle_below es u"
  shows "\<exists>n ds. get_descendants n es u = Some ds"
proof -
  let ?E = "set (edge_pairs es)"
  define R where "R = {(c, p). (p, c) \<in> ?E \<and> (u, p) \<in> ?E\<^sup>*}"
  have sub: "R \<subseteq> ?E\<inverse>" by (auto simp: R_def)
  then have fin: "finite R" by (rule finite_subset) simp
  have reach: "(u, x) \<in> ?E\<^sup>*" if "(x, y) \<in> R" for x y
    using that by (auto simp: R_def intro: rtrancl_into_rtrancl)
  have "acyclic R"
  proof (rule acyclicI, rule allI, rule notI)
    fix x assume x: "(x, x) \<in> R\<^sup>+"
    then obtain y where "(x, y) \<in> R" by (auto dest: tranclD)
    then have r: "(u, x) \<in> ?E\<^sup>*" by (rule reach)
    from x sub have "(x, x) \<in> (?E\<inverse>)\<^sup>+" by (meson trancl_mono)
    then have "(x, x) \<in> ?E\<^sup>+" by (simp add: trancl_converse)
    with no_cycle_below_reach[OF assms r] show False by simp
  qed
  with fin have "wf R" by (rule finite_acyclic_wf)
  then have "(u, v) \<in> ?E\<^sup>* \<longrightarrow> (\<exists>n ds. get_descendants n es v = Some ds)" for v
  proof (induction v rule: wf_induct_rule)
    case (less v)
    show ?case
    proof
      assume uv: "(u, v) \<in> ?E\<^sup>*"
      have "\<exists>n. list_all (\<lambda>c. get_descendants n es c \<noteq> None) cs" if "set cs \<subseteq> ?E `` {v}" for cs
        using that
      proof (induction cs)
        case Nil then show ?case by simp
      next
        case (Cons c cs)
        then obtain n where n: "list_all (\<lambda>c. get_descendants n es c \<noteq> None) cs" by auto
        from Cons.prems have vc: "(v, c) \<in> ?E" by simp
        then have "(c, v) \<in> R" using uv by (simp add: R_def)
        moreover have "(u, c) \<in> ?E\<^sup>*" using uv vc by (rule rtrancl_into_rtrancl)
        ultimately obtain m ds where m: "get_descendants m es c = Some ds" using less by blast
        have "get_descendants (m + n) es c = Some ds" by (rule get_descendants_add[OF m])
        moreover have "get_descendants (n + m) es c' \<noteq> None" if "c' \<in> set cs" for c'
        proof -
          from n that obtain ds' where "get_descendants n es c' = Some ds'" by (auto simp: list_all_iff)
          from get_descendants_add[OF this, of m] show ?thesis by simp
        qed
        ultimately have "list_all (\<lambda>c. get_descendants (m + n) es c \<noteq> None) (c # cs)"
          by (simp add: list_all_iff add.commute)
        then show ?case by blast
      qed
      then obtain n where "list_all (\<lambda>c. get_descendants n es c \<noteq> None) (children_of es v)"
        using set_children_of by blast
      then have "get_descendants (Suc n) es v \<noteq> None"
        unfolding get_descendants_Suc by simp
      then show "\<exists>n ds. get_descendants n es v = Some ds" by blast
    qed
  qed
  then show ?thesis by blast
qed

lemma get_descendants_below:
  "(u, v) \<in> (set (edge_pairs es))\<^sup>+ \<Longrightarrow> get_descendants n es u \<noteq> None \<Longrightarrow>
   \<exists>m < n. get_descendants m es v \<noteq> None"
proof (induction arbitrary: n rule: trancl_induct)
  case (base v)
  then obtain n' where n': "n = Suc n'" by (cases n) auto
  with base have "list_all (\<lambda>c. get_descendants n' es c \<noteq> None) (children_of es u)"
    by (auto simp: get_descendants_Suc split: if_splits)
  moreover have "v \<in> set (children_of es u)" using base by (simp add: set_children_of)
  ultimately show ?case using n' by (auto simp: list_all_iff)
next
  case (step w v)
  then obtain m where m: "m < n" "get_descendants m es w \<noteq> None" by blast
  then obtain m' where m': "m = Suc m'" by (cases m) auto
  with m have "list_all (\<lambda>c. get_descendants m' es c \<noteq> None) (children_of es w)"
    by (auto simp: get_descendants_Suc split: if_splits)
  moreover have "v \<in> set (children_of es w)" using step by (simp add: set_children_of)
  ultimately show ?case using m m' by (auto simp: list_all_iff intro!: exI[of _ m'])
qed

lemma get_descendants_cycle:
  "(u, u) \<in> (set (edge_pairs es))\<^sup>+ \<Longrightarrow> get_descendants n es u = None"
proof (induction n rule: less_induct)
  case (less n)
  show ?case
  proof (rule ccontr)
    assume "get_descendants n es u \<noteq> None"
    then obtain m where m: "m < n" "get_descendants m es u \<noteq> None"
      using get_descendants_below[OF less.prems] by blast
    from less.IH[OF m(1) less.prems] m(2) show False by simp
  qed
qed

lemma get_descendants_children_uniform:
  assumes "\<forall>c \<in> set cs. no_cycle_below es c"
  shows "\<exists>n. \<forall>c \<in> set cs. \<forall>k. get_descendants (n + k) es c \<noteq> None"
  using assms
proof (induction cs)
  case Nil then show ?case by simp
next
  case (Cons c cs)
  then obtain n where n: "\<forall>c \<in> set cs. \<forall>k. get_descendants (n + k) es c \<noteq> None" by auto
  from Cons.prems obtain m ds where m: "get_descendants m es c = Some ds"
    using get_descendants_no_cycle[of es c] by auto
  have "get_descendants (m + n + k) es c \<noteq> None" for k
    using get_descendants_add[OF m, of "n + k"] by (simp add: add.assoc)
  moreover have "get_descendants (m + n + k) es c' \<noteq> None" if "c' \<in> set cs" for c' k
  proof -
    have "m + n + k = n + (m + k)" by simp
    with n that show ?thesis by metis
  qed
  ultimately show ?case by (intro exI[of _ "m + n"]) simp
qed

lemma get_descendants_cycle_below:
  assumes "(u, v) \<in> (set (edge_pairs es))\<^sup>*" and "(v, v) \<in> (set (edge_pairs es))\<^sup>+"
  shows "get_descendants n es u = None"
proof (cases "u = v")
  case True with assms(2) show ?thesis by (simp add: get_descendants_cycle)
next
  case False
  with assms(1) have uv: "(u, v) \<in> (set (edge_pairs es))\<^sup>+" by (simp add: rtrancl_eq_or_trancl)
  show ?thesis
  proof (rule ccontr)
    assume "get_descendants n es u \<noteq> None"
    from get_descendants_below[OF uv this] obtain m where "get_descendants m es v \<noteq> None" by blast
    with get_descendants_cycle[OF assms(2), of m] show False by simp
  qed
qed

lemma mark_stale_raises_iff:
  "(\<forall>n. mark_stale n now db u = Inl RecursionError) \<longleftrightarrow> \<not> no_cycle_below (lineage db) u"
proof
  assume a: "\<forall>n. mark_stale n now db u = Inl RecursionError"
  show "\<not> no_cycle_below (lineage db) u"
  proof
    assume "no_cycle_below (lineage db) u"
    then obtain n ds where "get_descendants n (lineage db) u = Some ds"
      using get_descendants_no_cycle by blast
    then have "mark_stale n now db u \<noteq> Inl RecursionError" by (simp add: mark_stale_def)
    with a show False by simp
  qed
next
  assume "\<not> no_cycle_below (lineage db) u"
  then obtain v where "(u, v) \<in> (set (edge_pairs (lineage db)))\<^sup>*"
      "(v, v) \<in> (set (edge_pairs (lineage db)))\<^sup>+"
    unfolding no_cycle_below_def by (auto simp: rtrancl_eq_or_trancl)
  then have "get_descendants n (lineage db) u = None" for n by (rule get_descendants_cycle_below)
  then show "\<forall>n. mark_stale n now db u = Inl RecursionError" by (simp add: mark_stale_def)
qed

lemma fold_set_stale:
  "fold set_stale ds rows = map (\<lambda>r. if col_uid r \<in> set ds then r\<lparr>col_status := STALE\<rparr> else r) rows"
proof (induction ds arbitrary: rows)
  case Nil then show ?case by (simp add: map_idI)
next
  case (Cons d ds)
  have "fold set_stale (d # ds) rows =
        map (\<lambda>r. if col_uid r \<in> set ds then r\<lparr>col_status := STALE\<rparr> else r) (set_stale d rows)"
    by (simp only: fold_Cons comp_apply Cons.IH)
  also have "\<dots> = map (\<lambda>r. if col_uid r \<in> set (d # ds) then r\<lparr>col_status := STALE\<rparr> else r) rows"
    by (simp add: set_stale_def)
  finally show ?case .
qed

text \<open>
  C1, as the code has it. When no cycle of the lineage graph can be reached from
  \<open>uid\<close>, and the interpreter allows the recursion the depth it needs,
  \<open>mark_stale(uid)\<close> returns: it sets status \<open>stale\<close> on \<open>uid\<close> and on every
  record reachable from \<open>uid\<close> along parent-to-child edges, changes no other row and
  appends one audit entry. The list of descendants has one entry for every lineage path,
  so a record reached along two paths is updated twice (\<open>mark_stale_diamond_twice\<close>).
  A cycle elsewhere in the graph does no harm.
\<close>

theorem mark_stale_no_cycle_below:
  assumes "no_cycle_below (lineage db) u"
  shows "\<exists>n ds. set ds = (set (edge_pairs (lineage db)))\<^sup>+ `` {u} \<and>
           (\<forall>k. mark_stale (n + k) now db u =
              Inr (audit now ''mark_stale'' (Some u) [(''descendants'', JInt (int (length ds)))]
                    (db\<lparr>data_records :=
                          map (\<lambda>r. if col_uid r = u \<or> (u, col_uid r) \<in> (set (edge_pairs (lineage db)))\<^sup>+
                                    then r\<lparr>col_status := STALE\<rparr> else r)
                            (data_records db)\<rparr>)))"
proof -
  let ?E = "set (edge_pairs (lineage db))"
  obtain n ds where n: "get_descendants n (lineage db) u = Some ds"
    using get_descendants_no_cycle[OF assms] by blast
  have s: "set ds = ?E\<^sup>+ `` {u}" by (rule get_descendants_set[OF n])
  have rows: "fold set_stale ds (set_stale u (data_records db)) =
        map (\<lambda>r. if col_uid r = u \<or> (u, col_uid r) \<in> ?E\<^sup>+ then r\<lparr>col_status := STALE\<rparr> else r)
          (data_records db)"
    by (simp add: fold_set_stale s set_stale_def)
  have "mark_stale (n + k) now db u =
          Inr (audit now ''mark_stale'' (Some u) [(''descendants'', JInt (int (length ds)))]
                (db\<lparr>data_records :=
                      map (\<lambda>r. if col_uid r = u \<or> (u, col_uid r) \<in> ?E\<^sup>+
                                then r\<lparr>col_status := STALE\<rparr> else r)
                        (data_records db)\<rparr>))" for k
    by (simp add: mark_stale_def get_descendants_add[OF n] rows)
  with s show ?thesis by blast
qed

theorem mark_stale_no_cycle_below_witness:
  "no_cycle_below (lineage db_side_cycle) ''u'' \<and>
   \<not> acyclic (set (edge_pairs (lineage db_side_cycle))) \<and>
   (\<exists>n ds. set ds = {''c1'', ''c2''} \<and>
      (\<forall>k. mark_stale (n + k) ''t1'' db_side_cycle ''u'' =
         Inr (audit ''t1'' ''mark_stale'' (Some ''u'') [(''descendants'', JInt (int (length ds)))]
               (db_side_cycle\<lparr>data_records :=
                  map (\<lambda>r. r\<lparr>col_status := STALE\<rparr>) (data_records db_chain) @
                  [ex_row ''z'' ''z.json'']\<rparr>))))"
proof -
  have nc: "no_cycle_below (lineage db_side_cycle) ''u''" by code_simp
  have cy: "\<not> acyclic (set (edge_pairs (lineage db_side_cycle)))" by code_simp
  have tr: "(set (edge_pairs (lineage db_side_cycle)))\<^sup>+ `` {''u''} = {''c1'', ''c2''}" by code_simp
  have m: "map (\<lambda>r. if col_uid r = ''u'' \<or> (''u'', col_uid r) \<in> (set (edge_pairs (lineage db_side_cycle)))\<^sup>+
                    then r\<lparr>col_status := STALE\<rparr> else r) (data_records db_side_cycle) =
           map (\<lambda>r. r\<lparr>col_status := STALE\<rparr>) (data_records db_chain) @ [ex_row ''z'' ''z.json'']"
  proof -
    have "(''u'', x) \<in> (set (edge_pairs (lineage db_side_cycle)))\<^sup>+ \<longleftrightarrow> x \<in> {''c1'', ''c2''}" for x
      using tr by blast
    then show ?thesis
      by (simp add: db_side_cycle_def db_chain_def ex_row_def)
  qed
  from mark_stale_no_cycle_below[OF nc, of "''t1''"] show ?thesis
    unfolding tr m using nc cy by simp
qed


text \<open>
  On the chain closed into a cycle the recursion never bottoms out: whatever depth the
  interpreter allows, \<open>mark_stale\<close> raises \<open>RecursionError\<close>, the transaction is
  rolled back and no record is marked.
\<close>

theorem mark_stale_cycle_counterexample:
  "\<forall>n. mark_stale n ''t1'' db_cycle ''u'' = Inl RecursionError"
proof -
  have "(''u'', ''u'') \<in> (set (edge_pairs (lineage db_cycle)))\<^sup>+" by code_simp
  then show ?thesis by (simp add: mark_stale_def get_descendants_cycle)
qed

lemma mark_stale_diamond_twice:
  "get_descendants 3 (lineage db_diamond) ''a'' = Some [''b'', ''d'', ''c'', ''d'']"
  by code_simp

section \<open>A scan pass over a root without files\<close>

lemma get_in_table:
  "row \<in> set (data_records db) \<Longrightarrow> \<exists>r. get db (col_uid row) = Some r \<and> uid r = col_uid row"
proof -
  assume "row \<in> set (data_records db)"
  then obtain x where "find (\<lambda>r. col_uid r = col_uid row) (data_records db) = Some x"
    by (cases "find (\<lambda>r. col_uid r = col_uid row) (data_records db)") (auto simp: find_None_iff)
  moreover from this have "col_uid x = col_uid row" by (auto simp: find_Some_iff)
  ultimately show ?thesis by (simp add: get_def)
qed

lemma map_filter_get_uids:
  "set us \<subseteq> col_uid ` set (data_records db) \<Longrightarrow> map uid (List.map_filter (get db) us) = us"
proof (induction us)
  case Nil then show ?case by (simp add: List.map_filter_simps)
next
  case (Cons u us)
  then obtain row where "row \<in> set (data_records db)" "u = col_uid row" by auto
  then obtain r where "get db u = Some r" "uid r = u"
    using get_in_table[of row db] by auto
  with Cons show ?case by (simp add: List.map_filter_simps)
qed

lemma query_all_uids:
  "map uid (query db None None limit) = take limit (sort (map col_uid (data_records db)))"
proof -
  have "set (take limit (sort (map col_uid (data_records db)))) \<subseteq> col_uid ` set (data_records db)"
    using set_take_subset[of limit "sort (map col_uid (data_records db))"] by simp
  then show ?thesis unfolding query_def by (simp add: map_filter_get_uids)
qed

lemma query_all_length:
  "length (query db None None limit) = min limit (length (data_records db))"
  using arg_cong[OF query_all_uids[of db limit], of length] by (simp add: min.commute)

text \<open>
  The rows of \<open>db_chain\<close> were inserted as \<open>u\<close>, \<open>c1\<close>, \<open>c2\<close>: a query without a
  filter reads them in the order of the uids, a query with a filter in the order of
  insertion.
\<close>

lemma query_order:
  "map uid (query db_chain None None 2) = [''c1'', ''c2'']"
  "map uid (query db_chain None (Some VALID) 2) = [''u'', ''c1'']"
  by (simp_all add: query_def db_chain_def ex_row_def get_def List.map_filter_simps)

lemma fold_remove_unseen_nothing_seen:
  "fold (remove_unseen now []) recs (db, stats) =
     (fold (\<lambda>r d. delete now d (uid r)) recs db, stats\<lparr>removed := removed stats + length recs\<rparr>)"
  by (induction recs arbitrary: db stats) (simp_all add: remove_unseen_def)

lemma data_records_fold_delete:
  "data_records (fold (\<lambda>r d. delete now d (uid r)) recs db) =
     filter (\<lambda>row. col_uid row \<notin> set (map uid recs)) (data_records db)"
proof (induction recs arbitrary: db)
  case Nil then show ?case by simp
next
  case (Cons r recs)
  have "data_records (delete now db (uid r)) = filter (\<lambda>row. col_uid row \<noteq> uid r) (data_records db)"
    by (simp add: delete_def audit_def)
  then show ?case by (simp add: Cons.IH)
qed

lemma walk_all_no_files: "\<forall>p \<in> set tree. is_dir p \<Longrightarrow> walk_all cfg tree = []"
  by (simp add: walk_all_def filter_empty_conv)

lemma scan_nothing_to_walk:
  assumes "walk_all cfg tree = []"
  shows "snd (scan cfg depth now fresh db tree) =
           stats0\<lparr>removed := min 100000 (length (data_records db))\<rparr>"
    and "data_records (fst (scan cfg depth now fresh db tree)) =
           filter (\<lambda>row. col_uid row \<notin> set (take 100000 (sort (map col_uid (data_records db)))))
             (data_records db)"
  using assms
  by (simp_all add: scan_def Let_def fold_remove_unseen_nothing_seen data_records_fold_delete
        query_all_uids query_all_length stats0_def)

lemma length_filter_not_in_take_sort:
  fixes f :: "'a \<Rightarrow> 'b::linorder"
  assumes "distinct (map f xs)"
  shows "length (filter (\<lambda>x. f x \<notin> set (take k (sort (map f xs)))) xs) = length xs - k"
proof -
  let ?S = "set (take k (sort (map f xs)))"
  have sub: "?S \<subseteq> set (map f xs)"
    using set_take_subset[of k "sort (map f xs)"] by simp
  have dS: "distinct (take k (sort (map f xs)))" using assms by simp
  have cS: "card ?S = min k (length xs)" using distinct_card[OF dS] by (simp add: min.commute)
  have "length (filter (\<lambda>x. f x \<notin> ?S) xs) = length (filter (\<lambda>y. y \<notin> ?S) (map f xs))"
    by (simp add: filter_map comp_def)
  also have "\<dots> = card (set (filter (\<lambda>y. y \<notin> ?S) (map f xs)))"
    by (rule distinct_card[symmetric]) (rule distinct_filter[OF assms])
  also have "set (filter (\<lambda>y. y \<notin> ?S) (map f xs)) = set (map f xs) - ?S" by auto
  also have "card (set (map f xs) - ?S) = card (set (map f xs)) - card ?S"
    using sub by (simp add: card_Diff_subset)
  also have "\<dots> = length xs - min k (length xs)"
    using distinct_card[OF assms] cS by simp
  finally show ?thesis by simp
qed

text \<open>
  C7, as the code has it. When the root holds no file and the registry holds at most
  100000 records (the \<open>limit\<close> of the query that looks for removed files), the
  first pass deletes every record and the second pass returns the counts
  \<open>added = 0\<close>, \<open>updated = 0\<close>, \<open>unchanged = 0\<close>, \<open>removed = 0\<close> (and
  \<open>errors = 0\<close>).
\<close>

theorem scan_empty_root_twice:
  assumes "\<forall>p \<in> set tree. is_dir p"
      and "length (data_records db) \<le> 100000"
  shows "snd (scan cfg depth' now' fresh' (fst (scan cfg depth now fresh db tree)) tree) = stats0"
proof -
  have w: "walk_all cfg tree = []" by (rule walk_all_no_files[OF assms(1)])
  have "take 100000 (sort (map col_uid (data_records db))) = sort (map col_uid (data_records db))"
    using assms(2) by simp
  then have "data_records (fst (scan cfg depth now fresh db tree)) = []"
    by (simp add: scan_nothing_to_walk(2)[OF w] filter_empty_conv)
  then show ?thesis
    by (simp add: scan_nothing_to_walk(1)[OF w] stats0_def)
qed

theorem scan_empty_root_twice_witness:
  "list_all is_dir tree_no_files
   \<and> length (data_records db_chain) \<le> 100000
   \<and> snd (scan DEFAULT_CONFIG 900 ''t1'' (\<lambda>p. ''0'') db_chain tree_no_files) =
       \<lparr>added = 0, updated = 0, unchanged = 0, removed = 3, errors = 0\<rparr>
   \<and> snd (scan DEFAULT_CONFIG 900 ''t2'' (\<lambda>p. ''0'')
        (fst (scan DEFAULT_CONFIG 900 ''t1'' (\<lambda>p. ''0'') db_chain tree_no_files)) tree_no_files) =
       \<lparr>added = 0, updated = 0, unchanged = 0, removed = 0, errors = 0\<rparr>"
proof -
  have t: "\<forall>p \<in> set tree_no_files. is_dir p" by (simp add: tree_no_files_def)
  have l: "length (data_records db_chain) \<le> 100000" by (simp add: db_chain_def)
  have w: "walk_all DEFAULT_CONFIG tree_no_files = []" by (rule walk_all_no_files[OF t])
  have "snd (scan DEFAULT_CONFIG 900 ''t1'' (\<lambda>p. ''0'') db_chain tree_no_files) =
       \<lparr>added = 0, updated = 0, unchanged = 0, removed = 3, errors = 0\<rparr>"
    by (simp add: scan_nothing_to_walk(1)[OF w] stats0_def db_chain_def)
  with scan_empty_root_twice [OF t l, of DEFAULT_CONFIG 900 "''t2''" "\<lambda>p. ''0''" 900 "''t1''" "\<lambda>p. ''0''"] l
  show ?thesis by (simp add: stats0_def tree_no_files_def)
qed


text \<open>
  With 100001 records the first pass deletes the 100000 records its query returns, and
  the second pass finds the one that is left: \<open>removed = 1\<close>.
\<close>

theorem scan_empty_root_twice_counterexample:
  "removed (snd (scan DEFAULT_CONFIG 900 ''t2'' (\<lambda>p. ''0'')
      (fst (scan DEFAULT_CONFIG 900 ''t1'' (\<lambda>p. ''0'') db_big [])) [])) = 1"
proof -
  have w: "walk_all DEFAULT_CONFIG [] = []" by (simp add: walk_all_def)
  have d: "distinct (map col_uid (data_records db_big))"
    by (simp add: db_big_def ex_row_def comp_def distinct_map inj_on_def)
  have "length (data_records (fst (scan DEFAULT_CONFIG 900 ''t1'' (\<lambda>p. ''0'') db_big []))) =
          length (data_records db_big) - 100000"
    unfolding scan_nothing_to_walk(2)[OF w] by (rule length_filter_not_in_take_sort[OF d])
  then have "length (data_records (fst (scan DEFAULT_CONFIG 900 ''t1'' (\<lambda>p. ''0'') db_big []))) = 1"
    by (simp add: db_big_def)
  then show ?thesis
    by (simp add: scan_nothing_to_walk(1)[OF w] stats0_def)
qed

section \<open>One file of a scan pass\<close>

lemma mark_rows_stale_twice:
  "mark_rows_stale A (mark_rows_stale B rows) = mark_rows_stale (A \<union> B) rows"
  by (simp add: mark_rows_stale_def)

lemma mark_rows_stale_empty: "mark_rows_stale {} rows = rows"
  by (simp add: mark_rows_stale_def)

lemma find_mark_rows_stale:
  "find (\<lambda>r. col_uid r = u) (mark_rows_stale S rows) =
     map_option (\<lambda>r. if u \<in> S then r\<lparr>col_status := STALE\<rparr> else r) (find (\<lambda>r. col_uid r = u) rows)"
  by (induction rows) (auto simp: mark_rows_stale_def)

lemma mark_stale_result:
  "get_descendants depth (lineage db) u = Some ds \<Longrightarrow>
   mark_stale depth now db u =
     Inr (db\<lparr>data_records := mark_rows_stale (insert u ((set (edge_pairs (lineage db)))\<^sup>+ `` {u})) (data_records db),
            audit_log := audit_log db @
              [\<lparr>timestamp = now, action = ''mark_stale'', target_uid = Some u, actor = ''system'',
                details = [(''descendants'', JInt (int (length ds)))]\<rparr>]\<rparr>)"
  using get_descendants_set[of depth "lineage db" u ds]
  by (simp add: mark_stale_def audit_def fold_set_stale set_stale_def mark_rows_stale_def)

lemma mark_children_stale_all:
  assumes "\<forall>c \<in> set cs. get_descendants depth (lineage db) c \<noteq> None"
  shows "\<exists>db'. mark_children_stale depth now db cs = (db', None)
           \<and> lineage db' = lineage db
           \<and> data_records db' =
               mark_rows_stale (\<Union>c \<in> set cs. insert c ((set (edge_pairs (lineage db)))\<^sup>+ `` {c}))
                 (data_records db)
           \<and> audit_trace db' = audit_trace db @ map (\<lambda>c. (''mark_stale'', Some c)) cs"
  using assms
proof (induction cs arbitrary: db)
  case Nil then show ?case by (simp add: mark_rows_stale_empty)
next
  case (Cons c cs)
  let ?E = "set (edge_pairs (lineage db))"
  obtain ds where ds: "get_descendants depth (lineage db) c = Some ds" using Cons.prems by auto
  define db1 where "db1 = db\<lparr>data_records := mark_rows_stale (insert c (?E\<^sup>+ `` {c})) (data_records db),
            audit_log := audit_log db @
              [\<lparr>timestamp = now, action = ''mark_stale'', target_uid = Some c, actor = ''system'',
                details = [(''descendants'', JInt (int (length ds)))]\<rparr>]\<rparr>"
  have m: "mark_stale depth now db c = Inr db1" unfolding db1_def by (rule mark_stale_result[OF ds])
  have l1: "lineage db1 = lineage db" by (simp add: db1_def)
  then have "\<forall>c \<in> set cs. get_descendants depth (lineage db1) c \<noteq> None" using Cons.prems by simp
  from Cons.IH[OF this] obtain db' where db': "mark_children_stale depth now db1 cs = (db', None)"
      "lineage db' = lineage db1"
      "data_records db' = mark_rows_stale (\<Union>c \<in> set cs. insert c ((set (edge_pairs (lineage db1)))\<^sup>+ `` {c})) (data_records db1)"
      "audit_trace db' = audit_trace db1 @ map (\<lambda>c. (''mark_stale'', Some c)) cs"
    by blast
  have "mark_children_stale depth now db (c # cs) = (db', None)" using m db'(1) by simp
  moreover have "lineage db' = lineage db" using db'(2) l1 by simp
  moreover have "data_records db' =
       mark_rows_stale (\<Union>c \<in> set (c # cs). insert c (?E\<^sup>+ `` {c})) (data_records db)"
    unfolding db'(3) l1 by (simp add: db1_def mark_rows_stale_twice Un_commute)
  moreover have "audit_trace db' = audit_trace db @ map (\<lambda>c. (''mark_stale'', Some c)) (c # cs)"
    unfolding db'(4) by (simp add: db1_def audit_trace_def)
  ultimately show ?case by blast
qed

lemma mark_children_stale_any:
  "\<exists>S. data_records (fst (mark_children_stale depth now db cs)) = mark_rows_stale S (data_records db)
       \<and> lineage (fst (mark_children_stale depth now db cs)) = lineage db
       \<and> (\<forall>v \<in> S. \<exists>c \<in> set cs. get_descendants depth (lineage db) c \<noteq> None
                       \<and> (v = c \<or> (c, v) \<in> (set (edge_pairs (lineage db)))\<^sup>+))"
proof (induction cs arbitrary: db)
  case Nil
  show ?case using mark_rows_stale_empty by (intro exI[of _ "{}"]) simp
next
  case (Cons c cs)
  let ?E = "set (edge_pairs (lineage db))"
  show ?case
  proof (cases "get_descendants depth (lineage db) c")
    case None
    then show ?thesis using mark_rows_stale_empty by (intro exI[of _ "{}"]) (simp add: mark_stale_def)
  next
    case (Some ds)
    define db1 where "db1 = db\<lparr>data_records := mark_rows_stale (insert c (?E\<^sup>+ `` {c})) (data_records db),
            audit_log := audit_log db @
              [\<lparr>timestamp = now, action = ''mark_stale'', target_uid = Some c, actor = ''system'',
                details = [(''descendants'', JInt (int (length ds)))]\<rparr>]\<rparr>"
    have m: "mark_stale depth now db c = Inr db1"
      unfolding db1_def by (rule mark_stale_result[OF Some])
    have l1: "lineage db1 = lineage db" by (simp add: db1_def)
    from Cons.IH[of db1] obtain S where
      S: "data_records (fst (mark_children_stale depth now db1 cs)) = mark_rows_stale S (data_records db1)"
         "lineage (fst (mark_children_stale depth now db1 cs)) = lineage db1"
         "\<forall>v \<in> S. \<exists>c \<in> set cs. get_descendants depth (lineage db1) c \<noteq> None
                       \<and> (v = c \<or> (c, v) \<in> (set (edge_pairs (lineage db1)))\<^sup>+)"
      by blast
    let ?S = "S \<union> insert c (?E\<^sup>+ `` {c})"
    have "data_records (fst (mark_children_stale depth now db (c # cs))) = mark_rows_stale ?S (data_records db)"
      using S(1) by (simp add: m) (simp add: db1_def mark_rows_stale_twice)
    moreover have "lineage (fst (mark_children_stale depth now db (c # cs))) = lineage db"
      using S(2) l1 by (simp add: m)
    moreover have "\<forall>v \<in> ?S. \<exists>c' \<in> set (c # cs). get_descendants depth (lineage db) c' \<noteq> None
                       \<and> (v = c' \<or> (c', v) \<in> ?E\<^sup>+)"
    proof
      fix v assume "v \<in> ?S"
      then consider "v \<in> S" | "v = c \<or> (c, v) \<in> ?E\<^sup>+" by auto
      then show "\<exists>c' \<in> set (c # cs). get_descendants depth (lineage db) c' \<noteq> None
                       \<and> (v = c' \<or> (c', v) \<in> ?E\<^sup>+)"
      proof cases
        case 1
        with S(3) l1 show ?thesis by auto
      next
        case 2
        with Some show ?thesis by auto
      qed
    qed
    ultimately show ?thesis by blast
  qed
qed

lemma set_edge_pairs_fold_insert:
  "set (edge_pairs (fold (insert_edge now u) ps acc)) = set (edge_pairs acc) \<union> (\<lambda>p. (p, u)) ` set ps"
proof (induction ps arbitrary: acc)
  case Nil then show ?case by simp
next
  case (Cons p ps)
  have "set (edge_pairs (insert_edge now u p acc)) = insert (p, u) (set (edge_pairs acc))"
    by (auto simp: insert_edge_def edge_pairs_def list_ex_iff image_iff)
  then show ?case by (simp add: Cons.IH)
qed

lemma register_read_back_edges:
  assumes "parent_uids r = parents_of (lineage db) (uid r)"
  shows "set (edge_pairs (lineage (register now db r))) = set (edge_pairs (lineage db))"
proof -
  have "set (edge_pairs (delete_parent_edges (uid r) (lineage db))) \<union>
          (\<lambda>p. (p, uid r)) ` set (parents_of (lineage db) (uid r)) = set (edge_pairs (lineage db))"
    by (auto simp: delete_parent_edges_def parents_of_def edge_pairs_def image_iff)
  then show ?thesis
    by (simp add: register_def audit_def set_edge_pairs_fold_insert assms)
qed

lemma get_by_path_None: "get_by_path db p = None \<Longrightarrow> find (\<lambda>r. col_path r = p) (data_records db) = None"
proof (rule ccontr)
  assume a: "get_by_path db p = None" and "find (\<lambda>r. col_path r = p) (data_records db) \<noteq> None"
  then obtain row where row: "find (\<lambda>r. col_path r = p) (data_records db) = Some row" by auto
  then have "row \<in> set (data_records db)" by (auto simp: find_Some_iff)
  from get_in_table[OF this] row a show False by (auto simp: get_by_path_def)
qed

lemma get_Some:
  "get db u = Some r \<Longrightarrow>
     uid r = u \<and> parent_uids r = parents_of (lineage db) u
     \<and> child_uids r = children_of (lineage db) u
     \<and> find (\<lambda>x. col_uid x = u) (data_records db) \<noteq> None"
proof -
  assume a: "get db u = Some r"
  then obtain row where row: "find (\<lambda>x. col_uid x = u) (data_records db) = Some row"
    by (cases "find (\<lambda>x. col_uid x = u) (data_records db)") (simp_all add: get_def)
  then have "col_uid row = u" by (auto simp: find_Some_iff)
  with a row show ?thesis by (auto simp: get_def)
qed

lemma get_by_path_Some:
  "get_by_path db p = Some r \<Longrightarrow>
     get db (uid r) = Some r
     \<and> parent_uids r = parents_of (lineage db) (uid r)
     \<and> child_uids r = children_of (lineage db) (uid r)
     \<and> find (\<lambda>x. col_uid x = uid r) (data_records db) \<noteq> None"
proof -
  assume a: "get_by_path db p = Some r"
  then obtain row :: Row where "get db (col_uid row) = Some r"
    by (cases "find (\<lambda>r. col_path r = p) (data_records db)") (auto simp: get_by_path_def)
  with get_Some[OF this] show ?thesis by simp
qed

lemma trancl_image_children:
  "(\<Union>c \<in> E `` {u}. insert c (E\<^sup>+ `` {c})) = E\<^sup>+ `` {u}"
proof (intro set_eqI iffI)
  fix x assume "x \<in> (\<Union>c \<in> E `` {u}. insert c (E\<^sup>+ `` {c}))"
  then show "x \<in> E\<^sup>+ `` {u}" by (auto intro: trancl_into_trancl2)
next
  fix x assume "x \<in> E\<^sup>+ `` {u}"
  then have "(u, x) \<in> E\<^sup>+" by simp
  then show "x \<in> (\<Union>c \<in> E `` {u}. insert c (E\<^sup>+ `` {c}))"
    by (cases rule: converse_tranclE) auto
qed

lemma scan_file_changed_no_cycle:
  assumes ex: "get_by_path db (rel e) = Some ex"
      and sz: "st_size e = Some sz"
      and changed: "(case hash_file cfg e of None \<Rightarrow> True | Some h \<Rightarrow> hash_sha256 ex \<noteq> h)
                    \<or> size_bytes ex \<noteq> sz"
      and nc: "no_cycle_below (lineage db) (uid ex)"
  shows "\<exists>n. \<forall>k. \<exists>ex' db'.
           scan_file cfg (n + k) now fresh e (db, stats) = (db', stats\<lparr>updated := updated stats + 1\<rparr>)
         \<and> uid ex' = uid ex \<and> version ex' = version ex + 1
         \<and> status ex' = fst (validate_json_file (rel e) e)
         \<and> find (\<lambda>r. col_uid r = uid ex) (data_records db') = Some (row_of ex')
         \<and> data_records db' =
             mark_rows_stale ((set (edge_pairs (lineage db)))\<^sup>+ `` {uid ex})
               (data_records (register now db ex'))
         \<and> audit_trace db' =
             audit_trace db @ (''register'', Some (uid ex)) #
               map (\<lambda>c. (''mark_stale'', Some c)) (children_of (lineage db) (uid ex))"
proof -
  let ?E = "set (edge_pairs (lineage db))"
  let ?v = "validate_json_file (rel e) e"
  define ex' where "ex' = ex\<lparr>hash_sha256 := (case hash_file cfg e of None \<Rightarrow> [] | Some h \<Rightarrow> h),
       size_bytes := sz, modified_at := now, version := version ex + 1, status := fst ?v,
       metadata := (if snd ?v \<noteq> []
                    then AList.update ''validation'' (validation_entry (fst ?v) (snd ?v) now) (metadata ex)
                    else metadata ex)\<rparr>"
  let ?db1 = "register now db ex'"
  from get_by_path_Some[OF ex] have
    ps: "parent_uids ex = parents_of (lineage db) (uid ex)" and
    cs: "child_uids ex = children_of (lineage db) (uid ex)" by simp_all
  have u': "uid ex' = uid ex" and v': "version ex' = version ex + 1" and s': "status ex' = fst ?v"
    by (simp_all add: ex'_def)
  have "parent_uids ex' = parents_of (lineage db) (uid ex')" using ps by (simp add: ex'_def)
  then have E1: "set (edge_pairs (lineage ?db1)) = ?E" by (rule register_read_back_edges)
  have "no_cycle_below (lineage ?db1) c" if "c \<in> set (child_uids ex)" for c
  proof -
    from that have "(uid ex, c) \<in> ?E\<^sup>*" unfolding cs set_children_of by auto
    from no_cycle_below_step[OF nc this] show ?thesis by (simp add: no_cycle_below_def E1)
  qed
  then obtain n where n: "\<forall>c \<in> set (child_uids ex). \<forall>k. get_descendants (n + k) (lineage ?db1) c \<noteq> None"
    using get_descendants_children_uniform[of "child_uids ex" "lineage ?db1"] by blast
  have rows1: "find (\<lambda>r. col_uid r = uid ex) (data_records ?db1) = Some (row_of ex')"
    using find_replace_row[of "row_of ex'" "data_records db"]
    by (simp add: register_def audit_def row_of_def u')
  have tr1: "audit_trace ?db1 = audit_trace db @ [(''register'', Some (uid ex))]"
    by (simp add: register_def audit_def audit_trace_def u')
  have notin: "uid ex \<notin> ?E\<^sup>+ `` {uid ex}" using nc by (simp add: no_cycle_below_def)
  have D: "(\<Union>c \<in> set (child_uids ex). insert c (?E\<^sup>+ `` {c})) = ?E\<^sup>+ `` {uid ex}"
    unfolding cs set_children_of by (rule trancl_image_children)
  have "\<exists>ex' db'.
           scan_file cfg (n + k) now fresh e (db, stats) = (db', stats\<lparr>updated := updated stats + 1\<rparr>)
         \<and> uid ex' = uid ex \<and> version ex' = version ex + 1
         \<and> status ex' = fst ?v
         \<and> find (\<lambda>r. col_uid r = uid ex) (data_records db') = Some (row_of ex')
         \<and> data_records db' = mark_rows_stale (?E\<^sup>+ `` {uid ex}) (data_records (register now db ex'))
         \<and> audit_trace db' =
             audit_trace db @ (''register'', Some (uid ex)) #
               map (\<lambda>c. (''mark_stale'', Some c)) (children_of (lineage db) (uid ex))" for k
  proof -
    from n have "\<forall>c \<in> set (child_uids ex). get_descendants (n + k) (lineage ?db1) c \<noteq> None" by simp
    from mark_children_stale_all[OF this, of now] obtain db' where
      m: "mark_children_stale (n + k) now ?db1 (child_uids ex) = (db', None)" and
      r: "data_records db' = mark_rows_stale (\<Union>c \<in> set (child_uids ex).
             insert c ((set (edge_pairs (lineage ?db1)))\<^sup>+ `` {c})) (data_records ?db1)" and
      t: "audit_trace db' = audit_trace ?db1 @ map (\<lambda>c. (''mark_stale'', Some c)) (child_uids ex)"
      by blast
    have r': "data_records db' = mark_rows_stale (?E\<^sup>+ `` {uid ex}) (data_records ?db1)"
      using r unfolding E1 D .
    have "scan_file cfg (n + k) now fresh e (db, stats) = (db', stats\<lparr>updated := updated stats + 1\<rparr>)"
      using changed m by (simp add: scan_file_def sz ex Let_def ex'_def)
    moreover have "find (\<lambda>r. col_uid r = uid ex) (data_records db') = Some (row_of ex')"
      unfolding r' find_mark_rows_stale rows1 using notin by simp
    moreover have "audit_trace db' =
             audit_trace db @ (''register'', Some (uid ex)) #
               map (\<lambda>c. (''mark_stale'', Some c)) (children_of (lineage db) (uid ex))"
      unfolding t tr1 cs by simp
    ultimately show ?thesis using u' v' s' r' by blast
  qed
  then show ?thesis by blast
qed

lemma mark_children_stale_cycle:
  "(c, c) \<in> (set (edge_pairs (lineage db)))\<^sup>+ \<Longrightarrow>
   mark_children_stale depth now db (c # cs) = (db, Some RecursionError)"
  by (simp add: mark_stale_def get_descendants_cycle)

lemma scan_file_changed_cycle:
  assumes ex: "get_by_path db (rel e) = Some ex"
      and sz: "st_size e = Some sz"
      and changed: "(case hash_file cfg e of None \<Rightarrow> True | Some h \<Rightarrow> hash_sha256 ex \<noteq> h)
                    \<or> size_bytes ex \<noteq> sz"
      and cyc: "children_of (lineage db) (uid ex) = c # cs"
               "(c, c) \<in> (set (edge_pairs (lineage db)))\<^sup>+"
  shows "scan_file cfg depth now fresh e (db, stats) =
           (register now db
              (ex\<lparr>hash_sha256 := (case hash_file cfg e of None \<Rightarrow> [] | Some h \<Rightarrow> h),
                  size_bytes := sz, modified_at := now, version := version ex + 1,
                  status := fst (validate_json_file (rel e) e),
                  metadata := (if snd (validate_json_file (rel e) e) \<noteq> []
                     then AList.update ''validation''
                            (validation_entry (fst (validate_json_file (rel e) e))
                               (snd (validate_json_file (rel e) e)) now) (metadata ex)
                     else metadata ex)\<rparr>),
            stats\<lparr>errors := errors stats + 1\<rparr>)"
proof -
  let ?v = "validate_json_file (rel e) e"
  define ex' where "ex' = ex\<lparr>hash_sha256 := (case hash_file cfg e of None \<Rightarrow> [] | Some h \<Rightarrow> h),
       size_bytes := sz, modified_at := now, version := version ex + 1, status := fst ?v,
       metadata := (if snd ?v \<noteq> []
                    then AList.update ''validation'' (validation_entry (fst ?v) (snd ?v) now) (metadata ex)
                    else metadata ex)\<rparr>"
  from get_by_path_Some[OF ex] have
    ps: "parent_uids ex = parents_of (lineage db) (uid ex)" and
    cs: "child_uids ex = children_of (lineage db) (uid ex)" by simp_all
  have "parent_uids ex' = parents_of (lineage db) (uid ex')" using ps by (simp add: ex'_def)
  then have "set (edge_pairs (lineage (register now db ex'))) = set (edge_pairs (lineage db))"
    by (rule register_read_back_edges)
  then have "(c, c) \<in> (set (edge_pairs (lineage (register now db ex'))))\<^sup>+" using cyc(2) by simp
  then have "mark_children_stale depth now (register now db ex') (child_uids ex) =
               (register now db ex', Some RecursionError)"
    unfolding cs cyc(1) by (rule mark_children_stale_cycle)
  then show ?thesis
    using changed unfolding ex'_def by (simp add: scan_file_def sz ex Let_def)
qed

lemma scan_file_changed_any:
  assumes ex: "get_by_path db (rel e) = Some ex"
      and sz: "st_size e = Some sz"
      and changed: "(case hash_file cfg e of None \<Rightarrow> True | Some h \<Rightarrow> hash_sha256 ex \<noteq> h)
                    \<or> size_bytes ex \<noteq> sz"
  shows "\<exists>ex' db' st S. scan_file cfg depth now fresh e (db, stats) = (db', st)
           \<and> uid ex' = uid ex \<and> version ex' = version ex + 1
           \<and> status ex' = fst (validate_json_file (rel e) e)
           \<and> size_bytes ex' = sz
           \<and> hash_sha256 ex' = (case hash_file cfg e of None \<Rightarrow> [] | Some h \<Rightarrow> h)
           \<and> find (\<lambda>r. col_uid r = uid ex) (data_records db') = Some (row_of ex')
           \<and> data_records db' = mark_rows_stale S (data_records (register now db ex'))
           \<and> unchanged st = unchanged stats \<and> added st = added stats
           \<and> (updated st = updated stats + 1 \<and> errors st = errors stats
               \<or> updated st = updated stats \<and> errors st = errors stats + 1)"
proof -
  let ?E = "set (edge_pairs (lineage db))"
  let ?v = "validate_json_file (rel e) e"
  define ex' where "ex' = ex\<lparr>hash_sha256 := (case hash_file cfg e of None \<Rightarrow> [] | Some h \<Rightarrow> h),
       size_bytes := sz, modified_at := now, version := version ex + 1, status := fst ?v,
       metadata := (if snd ?v \<noteq> []
                    then AList.update ''validation'' (validation_entry (fst ?v) (snd ?v) now) (metadata ex)
                    else metadata ex)\<rparr>"
  let ?db1 = "register now db ex'"
  from get_by_path_Some[OF ex] have
    ps: "parent_uids ex = parents_of (lineage db) (uid ex)" and
    cs: "child_uids ex = children_of (lineage db) (uid ex)" by simp_all
  have "parent_uids ex' = parents_of (lineage db) (uid ex')" using ps by (simp add: ex'_def)
  then have E1: "set (edge_pairs (lineage ?db1)) = ?E" by (rule register_read_back_edges)
  obtain db' err where m: "mark_children_stale depth now ?db1 (child_uids ex) = (db', err)"
    by (cases "mark_children_stale depth now ?db1 (child_uids ex)")
  from mark_children_stale_any[of depth now ?db1 "child_uids ex"] m obtain S where
    S: "data_records db' = mark_rows_stale S (data_records ?db1)" and
    S2: "\<forall>v \<in> S. \<exists>c \<in> set (child_uids ex). get_descendants depth (lineage ?db1) c \<noteq> None
                       \<and> (v = c \<or> (c, v) \<in> ?E\<^sup>+)"
    unfolding E1 by auto
  have notin: "uid ex \<notin> S"
  proof
    assume "uid ex \<in> S"
    with S2 obtain c where c: "c \<in> set (child_uids ex)"
        "get_descendants depth (lineage ?db1) c \<noteq> None" "uid ex = c \<or> (c, uid ex) \<in> ?E\<^sup>+"
      by blast
    from c(1) have uc: "(uid ex, c) \<in> ?E" unfolding cs set_children_of by simp
    from c(3) have "(c, c) \<in> ?E\<^sup>+"
    proof
      assume "uid ex = c" with uc show ?thesis by auto
    next
      assume "(c, uid ex) \<in> ?E\<^sup>+" then show ?thesis using uc by (rule trancl_into_trancl)
    qed
    then have "get_descendants depth (lineage ?db1) c = None"
      using get_descendants_cycle[of c "lineage ?db1" depth] E1 by simp
    with c(2) show False by simp
  qed
  have rows1: "find (\<lambda>r. col_uid r = uid ex) (data_records ?db1) = Some (row_of ex')"
    using find_replace_row[of "row_of ex'" "data_records db"]
    by (simp add: register_def audit_def row_of_def ex'_def)
  have f: "find (\<lambda>r. col_uid r = uid ex) (data_records db') = Some (row_of ex')"
    unfolding S find_mark_rows_stale rows1 using notin by simp
  have sf: "scan_file cfg depth now fresh e (db, stats) =
          (db', case err of None \<Rightarrow> stats\<lparr>updated := updated stats + 1\<rparr>
                         | Some x \<Rightarrow> stats\<lparr>errors := errors stats + 1\<rparr>)"
    using changed m unfolding ex'_def
    by (cases err) (simp_all add: scan_file_def sz ex Let_def)
  have fields: "uid ex' = uid ex" "version ex' = version ex + 1" "status ex' = fst ?v"
      "size_bytes ex' = sz" "hash_sha256 ex' = (case hash_file cfg e of None \<Rightarrow> [] | Some h \<Rightarrow> h)"
    by (simp_all add: ex'_def)
  show ?thesis
    by (rule exI[of _ ex'], rule exI[of _ db'],
        rule exI[of _ "case err of None \<Rightarrow> stats\<lparr>updated := updated stats + 1\<rparr>
                         | Some x \<Rightarrow> stats\<lparr>errors := errors stats + 1\<rparr>"], rule exI[of _ S])
       (cases err; simp add: sf f[unfolded S] fields S)
qed

text \<open>
  C2, as the code has it. When a scan observes a tracked file with a digest or size that
  differs from the record, the step increments the record's version by one, sets the
  record's own status from the validation result and re-registers it; the row stored for
  the record afterwards is the re-registered one, not forced to \<open>stale\<close>; the file
  is never counted as unchanged. The step then calls \<open>mark_stale\<close> on the existing
  children in turn. When no cycle of the lineage graph can be reached from the record
  (and the interpreter allows the recursion the depth it needs), every child is called,
  every record below the file is \<open>stale\<close> and the file is counted as updated.
\<close>

theorem scan_changed_file:
  assumes "get_by_path db (rel e) = Some ex"
      and "st_size e = Some sz"
      and "(case hash_file cfg e of None \<Rightarrow> True | Some h \<Rightarrow> hash_sha256 ex \<noteq> h)
           \<or> size_bytes ex \<noteq> sz"
  shows "(\<forall>depth. \<exists>ex' db' st S.
            scan_file cfg depth now fresh e (db, stats) = (db', st)
          \<and> uid ex' = uid ex \<and> version ex' = version ex + 1
          \<and> status ex' = fst (validate_json_file (rel e) e)
          \<and> find (\<lambda>r. col_uid r = uid ex) (data_records db') = Some (row_of ex')
          \<and> data_records db' = mark_rows_stale S (data_records (register now db ex'))
          \<and> unchanged st = unchanged stats \<and> added st = added stats
          \<and> (updated st = updated stats + 1 \<and> errors st = errors stats
              \<or> updated st = updated stats \<and> errors st = errors stats + 1))
     \<and> (no_cycle_below (lineage db) (uid ex) \<longrightarrow>
         (\<exists>n. \<forall>k. \<exists>ex' db'.
             scan_file cfg (n + k) now fresh e (db, stats) =
               (db', stats\<lparr>updated := updated stats + 1\<rparr>)
           \<and> uid ex' = uid ex \<and> version ex' = version ex + 1
           \<and> status ex' = fst (validate_json_file (rel e) e)
           \<and> find (\<lambda>r. col_uid r = uid ex) (data_records db') = Some (row_of ex')
           \<and> data_records db' =
               mark_rows_stale ((set (edge_pairs (lineage db)))\<^sup>+ `` {uid ex})
                 (data_records (register now db ex'))
           \<and> audit_trace db' =
               audit_trace db @ (''register'', Some (uid ex)) #
                 map (\<lambda>c. (''mark_stale'', Some c)) (children_of (lineage db) (uid ex))))"
proof -
  have "\<exists>ex' db' st S.
            scan_file cfg depth now fresh e (db, stats) = (db', st)
          \<and> uid ex' = uid ex \<and> version ex' = version ex + 1
          \<and> status ex' = fst (validate_json_file (rel e) e)
          \<and> find (\<lambda>r. col_uid r = uid ex) (data_records db') = Some (row_of ex')
          \<and> data_records db' = mark_rows_stale S (data_records (register now db ex'))
          \<and> unchanged st = unchanged stats \<and> added st = added stats
          \<and> (updated st = updated stats + 1 \<and> errors st = errors stats
              \<or> updated st = updated stats \<and> errors st = errors stats + 1)" for depth
    using scan_file_changed_any[OF assms, of depth now fresh stats] by blast
  then show ?thesis
    using scan_file_changed_no_cycle[OF assms, of now fresh stats] by blast
qed

theorem scan_changed_file_witness:
  "get_by_path db_chain (rel file_changed) = Some rec_u
   \<and> st_size file_changed = Some 12
   \<and> hash_file DEFAULT_CONFIG file_changed = Some ''h9''
   \<and> no_cycle_below (lineage db_chain) (uid rec_u)
   \<and> (\<exists>n. \<forall>k. \<exists>ex' db'.
         scan_file DEFAULT_CONFIG (n + k) ''t1'' ''0'' file_changed (db_chain, stats0) =
           (db', stats0\<lparr>updated := 1\<rparr>)
       \<and> uid ex' = ''u'' \<and> version ex' = 2 \<and> status ex' = VALID
       \<and> find (\<lambda>r. col_uid r = ''u'') (data_records db') = Some (row_of ex')
       \<and> data_records db' =
           mark_rows_stale {''c1'', ''c2''} (data_records (register ''t1'' db_chain ex'))
       \<and> audit_trace db' = [(''register'', Some ''u''), (''mark_stale'', Some ''c1'')])"
proof -
  have g: "get_by_path db_chain (rel file_changed) = Some rec_u"
    by (simp add: get_by_path_def get_def db_chain_def file_changed_def rec_u_def ex_row_def
          ex_edge_def parents_of_def children_of_def)
  have s: "st_size file_changed = Some 12" by (simp add: file_changed_def)
  have h: "hash_file DEFAULT_CONFIG file_changed = Some ''h9''"
    by (simp add: hash_file_def file_changed_def DEFAULT_CONFIG_def)
  have c: "(case hash_file DEFAULT_CONFIG file_changed of None \<Rightarrow> True | Some h \<Rightarrow> hash_sha256 rec_u \<noteq> h)
           \<or> size_bytes rec_u \<noteq> 12"
    by (simp add: h rec_u_def)
  have ac: "no_cycle_below (lineage db_chain) (uid rec_u)" by code_simp
  have tr: "(set (edge_pairs (lineage db_chain)))\<^sup>+ `` {''u''} = {''c1'', ''c2''}" by code_simp
  have v: "fst (validate_json_file (rel file_changed) file_changed) = VALID"
    by (simp add: validate_json_file_def file_changed_def replace_backslash_def basename_def
          key_files_def)
  have ch: "children_of (lineage db_chain) ''u'' = [''c1'']"
    by (simp add: children_of_def db_chain_def ex_edge_def)
  have u: "uid rec_u = ''u''" "version rec_u + 1 = 2" "updated stats0 + 1 = 1" "audit_trace db_chain = []"
    by (simp_all add: rec_u_def stats0_def audit_trace_def db_chain_def)
  note t = scan_changed_file[OF g s c, where now = "''t1''" and fresh = "''0''" and stats = stats0]
  from t ac have "\<exists>n. \<forall>k. \<exists>ex' db'.
         scan_file DEFAULT_CONFIG (n + k) ''t1'' ''0'' file_changed (db_chain, stats0) =
           (db', stats0\<lparr>updated := updated stats0 + 1\<rparr>)
       \<and> uid ex' = uid rec_u \<and> version ex' = version rec_u + 1
       \<and> status ex' = fst (validate_json_file (rel file_changed) file_changed)
       \<and> find (\<lambda>r. col_uid r = uid rec_u) (data_records db') = Some (row_of ex')
       \<and> data_records db' =
           mark_rows_stale ((set (edge_pairs (lineage db_chain)))\<^sup>+ `` {uid rec_u})
             (data_records (register ''t1'' db_chain ex'))
       \<and> audit_trace db' =
           audit_trace db_chain @ (''register'', Some (uid rec_u)) #
             map (\<lambda>c. (''mark_stale'', Some c)) (children_of (lineage db_chain) (uid rec_u))"
    by blast
  then have "\<exists>n. \<forall>k. \<exists>ex' db'.
         scan_file DEFAULT_CONFIG (n + k) ''t1'' ''0'' file_changed (db_chain, stats0) =
           (db', stats0\<lparr>updated := 1\<rparr>)
       \<and> uid ex' = ''u'' \<and> version ex' = 2 \<and> status ex' = VALID
       \<and> find (\<lambda>r. col_uid r = ''u'') (data_records db') = Some (row_of ex')
       \<and> data_records db' =
           mark_rows_stale {''c1'', ''c2''} (data_records (register ''t1'' db_chain ex'))
       \<and> audit_trace db' = [(''register'', Some ''u''), (''mark_stale'', Some ''c1'')]"
    unfolding u tr v ch by simp
  with g s h ac show ?thesis by blast
qed

text \<open>
  On the chain closed into a cycle, \<open>mark_stale\<close> on the child \<open>c1\<close> raises
  whatever recursion depth is allowed: the record is re-registered with version 2, no
  \<open>mark_stale\<close> is audited, the child keeps status \<open>valid\<close>, and the file is
  counted under \<open>errors\<close>, not under \<open>updated\<close>.
\<close>

theorem scan_changed_file_counterexample:
  "\<forall>n. updated (snd (scan_file DEFAULT_CONFIG n ''t1'' ''0'' file_changed (db_cycle, stats0))) = 0
      \<and> errors (snd (scan_file DEFAULT_CONFIG n ''t1'' ''0'' file_changed (db_cycle, stats0))) = 1
      \<and> map (\<lambda>r. (col_uid r, col_version r, col_status r))
           (data_records (fst (scan_file DEFAULT_CONFIG n ''t1'' ''0'' file_changed (db_cycle, stats0)))) =
         [(''c1'', 1, VALID), (''c2'', 1, VALID), (''u'', 2, VALID)]
      \<and> audit_trace (fst (scan_file DEFAULT_CONFIG n ''t1'' ''0'' file_changed (db_cycle, stats0))) =
         [(''register'', Some ''u'')]"
proof
  fix n
  have g: "get_by_path db_cycle (rel file_changed) = Some (rec_u\<lparr>parent_uids := [''c2'']\<rparr>)"
    by (simp add: get_by_path_def get_def db_cycle_def db_chain_def file_changed_def rec_u_def
          ex_row_def ex_edge_def parents_of_def children_of_def)
  have s: "st_size file_changed = Some 12" by (simp add: file_changed_def)
  have c: "(case hash_file DEFAULT_CONFIG file_changed of None \<Rightarrow> True
            | Some h \<Rightarrow> hash_sha256 (rec_u\<lparr>parent_uids := [''c2'']\<rparr>) \<noteq> h)
           \<or> size_bytes (rec_u\<lparr>parent_uids := [''c2'']\<rparr>) \<noteq> 12"
    by (simp add: rec_u_def)
  have ch: "children_of (lineage db_cycle) (uid (rec_u\<lparr>parent_uids := [''c2'']\<rparr>)) = ''c1'' # []"
    by (simp add: children_of_def db_cycle_def db_chain_def ex_edge_def rec_u_def)
  have cy: "(''c1'', ''c1'') \<in> (set (edge_pairs (lineage db_cycle)))\<^sup>+" by code_simp
  show "updated (snd (scan_file DEFAULT_CONFIG n ''t1'' ''0'' file_changed (db_cycle, stats0))) = 0
      \<and> errors (snd (scan_file DEFAULT_CONFIG n ''t1'' ''0'' file_changed (db_cycle, stats0))) = 1
      \<and> map (\<lambda>r. (col_uid r, col_version r, col_status r))
           (data_records (fst (scan_file DEFAULT_CONFIG n ''t1'' ''0'' file_changed (db_cycle, stats0)))) =
         [(''c1'', 1, VALID), (''c2'', 1, VALID), (''u'', 2, VALID)]
      \<and> audit_trace (fst (scan_file DEFAULT_CONFIG n ''t1'' ''0'' file_changed (db_cycle, stats0))) =
         [(''register'', Some ''u'')]"
    unfolding scan_file_changed_cycle[OF g s c ch cy]
    by (simp add: stats0_def register_def audit_def audit_trace_def replace_row_def row_of_def
          rec_u_def db_cycle_def db_chain_def ex_row_def file_changed_def validate_json_file_def
          replace_backslash_def basename_def key_files_def)
qed

section \<open>Files above the hash limit\<close>

lemma hash_file_oversize:
  "st_size e = Some sz \<Longrightarrow> sz > hash_max_mb cfg * 1024 * 1024 \<Longrightarrow> hash_file cfg e = None"
  by (simp add: hash_file_def)

text \<open>
  C9, as the code has it. For a tracked file larger than \<open>hash_max_mb\<close> the digest
  is \<open>None\<close>, which never equals the stored string, so every scan takes the file as
  changed whatever its stored size and digest: the step never counts it as unchanged,
  stores version + 1 and the empty digest, and counts the file either as updated or, when
  \<open>mark_stale\<close> raises on a child, under \<open>errors\<close>. When no cycle of the
  lineage graph can be reached from the record (and the recursion depth suffices) the
  file is counted as updated and every record below it is marked \<open>stale\<close>.
\<close>

theorem oversize_tracked_file_rescanned:
  assumes "get_by_path db (rel e) = Some ex"
      and "st_size e = Some sz"
      and "sz > hash_max_mb cfg * 1024 * 1024"
  shows "hash_file cfg e = None
     \<and> (\<forall>depth. \<exists>ex' db' st.
           scan_file cfg depth now fresh e (db, stats) = (db', st)
         \<and> uid ex' = uid ex \<and> version ex' = version ex + 1
         \<and> size_bytes ex' = sz \<and> hash_sha256 ex' = []
         \<and> find (\<lambda>r. col_uid r = uid ex) (data_records db') = Some (row_of ex')
         \<and> unchanged st = unchanged stats \<and> added st = added stats
         \<and> (updated st = updated stats + 1 \<and> errors st = errors stats
             \<or> updated st = updated stats \<and> errors st = errors stats + 1))
     \<and> (no_cycle_below (lineage db) (uid ex) \<longrightarrow>
         (\<exists>n. \<forall>k. \<exists>ex' db'.
             scan_file cfg (n + k) now fresh e (db, stats) =
               (db', stats\<lparr>updated := updated stats + 1\<rparr>)
           \<and> uid ex' = uid ex \<and> version ex' = version ex + 1
           \<and> status ex' = fst (validate_json_file (rel e) e)
           \<and> find (\<lambda>r. col_uid r = uid ex) (data_records db') = Some (row_of ex')
           \<and> data_records db' =
               mark_rows_stale ((set (edge_pairs (lineage db)))\<^sup>+ `` {uid ex})
                 (data_records (register now db ex'))
           \<and> audit_trace db' =
               audit_trace db @ (''register'', Some (uid ex)) #
                 map (\<lambda>c. (''mark_stale'', Some c)) (children_of (lineage db) (uid ex))))"
proof -
  have h: "hash_file cfg e = None" by (rule hash_file_oversize[OF assms(2,3)])
  then have c: "(case hash_file cfg e of None \<Rightarrow> True | Some h \<Rightarrow> hash_sha256 ex \<noteq> h)
                \<or> size_bytes ex \<noteq> sz" by simp
  have any: "\<exists>ex' db' st.
           scan_file cfg depth now fresh e (db, stats) = (db', st)
         \<and> uid ex' = uid ex \<and> version ex' = version ex + 1
         \<and> size_bytes ex' = sz \<and> hash_sha256 ex' = []
         \<and> find (\<lambda>r. col_uid r = uid ex) (data_records db') = Some (row_of ex')
         \<and> unchanged st = unchanged stats \<and> added st = added stats
         \<and> (updated st = updated stats + 1 \<and> errors st = errors stats
             \<or> updated st = updated stats \<and> errors st = errors stats + 1)" for depth
    using scan_file_changed_any[OF assms(1,2) c, of depth now fresh stats] unfolding h
    by (simp only: option.case) blast
  show ?thesis
    using h any scan_file_changed_no_cycle[OF assms(1,2) c, of now fresh stats] by blast
qed

theorem oversize_tracked_file_rescanned_witness:
  "get_by_path db_big_file (rel file_big) = Some rec_p
   \<and> st_size file_big = Some 60000000
   \<and> size_bytes rec_p = 60000000
   \<and> 60000000 > hash_max_mb DEFAULT_CONFIG * 1024 * 1024
   \<and> no_cycle_below (lineage db_big_file) (uid rec_p)
   \<and> hash_file DEFAULT_CONFIG file_big = None
   \<and> (\<exists>n. \<forall>k. \<exists>ex' db'.
         scan_file DEFAULT_CONFIG (n + k) ''t1'' ''0'' file_big (db_big_file, stats0) =
           (db', stats0\<lparr>updated := 1\<rparr>)
       \<and> uid ex' = ''p'' \<and> version ex' = 2 \<and> status ex' = VALID
       \<and> find (\<lambda>r. col_uid r = ''p'') (data_records db') = Some (row_of ex')
       \<and> data_records db' =
           mark_rows_stale {''x'', ''y''} (data_records (register ''t1'' db_big_file ex'))
       \<and> audit_trace db' =
           [(''register'', Some ''p''), (''mark_stale'', Some ''x''), (''mark_stale'', Some ''y'')])"
proof -
  have g: "get_by_path db_big_file (rel file_big) = Some rec_p"
    by (simp add: get_by_path_def get_def db_big_file_def file_big_def rec_p_def ex_row_def
          ex_edge_def parents_of_def children_of_def row_of_def)
  have s: "st_size file_big = Some 60000000" by (simp add: file_big_def)
  have b: "(60000000::int) > hash_max_mb DEFAULT_CONFIG * 1024 * 1024"
    by (simp add: DEFAULT_CONFIG_def)
  have ac: "no_cycle_below (lineage db_big_file) (uid rec_p)" by code_simp
  have tr: "(set (edge_pairs (lineage db_big_file)))\<^sup>+ `` {''p''} = {''x'', ''y''}" by code_simp
  have v: "fst (validate_json_file (rel file_big) file_big) = VALID"
    by (simp add: validate_json_file_def file_big_def replace_backslash_def basename_def
          key_files_def)
  have ch: "children_of (lineage db_big_file) ''p'' = [''x'', ''y'']"
    by (simp add: children_of_def db_big_file_def ex_edge_def)
  have u: "uid rec_p = ''p''" "version rec_p + 1 = 2" "updated stats0 + 1 = 1"
      "audit_trace db_big_file = []" "size_bytes rec_p = 60000000"
    by (simp_all add: rec_p_def stats0_def audit_trace_def db_big_file_def)
  note t = oversize_tracked_file_rescanned[OF g s b, where now = "''t1''" and fresh = "''0''"
             and stats = stats0]
  from t have h: "hash_file DEFAULT_CONFIG file_big = None" by blast
  from t ac have "\<exists>n. \<forall>k. \<exists>ex' db'.
             scan_file DEFAULT_CONFIG (n + k) ''t1'' ''0'' file_big (db_big_file, stats0) =
               (db', stats0\<lparr>updated := updated stats0 + 1\<rparr>)
           \<and> uid ex' = uid rec_p \<and> version ex' = version rec_p + 1
           \<and> status ex' = fst (validate_json_file (rel file_big) file_big)
           \<and> find (\<lambda>r. col_uid r = uid rec_p) (data_records db') = Some (row_of ex')
           \<and> data_records db' =
               mark_rows_stale ((set (edge_pairs (lineage db_big_file)))\<^sup>+ `` {uid rec_p})
                 (data_records (register ''t1'' db_big_file ex'))
           \<and> audit_trace db' =
               audit_trace db_big_file @ (''register'', Some (uid rec_p)) #
                 map (\<lambda>c. (''mark_stale'', Some c)) (children_of (lineage db_big_file) (uid rec_p))"
    by blast
  then have "\<exists>n. \<forall>k. \<exists>ex' db'.
         scan_file DEFAULT_CONFIG (n + k) ''t1'' ''0'' file_big (db_big_file, stats0) =
           (db', stats0\<lparr>updated := 1\<rparr>)
       \<and> uid ex' = ''p'' \<and> version ex' = 2 \<and> status ex' = VALID
       \<and> find (\<lambda>r. col_uid r = ''p'') (data_records db') = Some (row_of ex')
       \<and> data_records db' =
           mark_rows_stale {''x'', ''y''} (data_records (register ''t1'' db_big_file ex'))
       \<and> audit_trace db' =
           [(''register'', Some ''p''), (''mark_stale'', Some ''x''), (''mark_stale'', Some ''y'')]"
    unfolding u tr v ch by simp
  with g s b ac h u(5) show ?thesis by blast
qed

text \<open>
  Where the first child is its own parent, \<open>mark_stale\<close> raises at every recursion
  depth: the file is counted under \<open>errors\<close>, not as updated, and neither child is
  marked \<open>stale\<close>.
\<close>

theorem oversize_tracked_file_rescanned_counterexample:
  "\<forall>n. hash_file DEFAULT_CONFIG file_big = None
      \<and> updated (snd (scan_file DEFAULT_CONFIG n ''t1'' ''0'' file_big (db_big_file_loop, stats0))) = 0
      \<and> errors (snd (scan_file DEFAULT_CONFIG n ''t1'' ''0'' file_big (db_big_file_loop, stats0))) = 1
      \<and> map (\<lambda>r. (col_uid r, col_version r, col_status r))
           (data_records (fst (scan_file DEFAULT_CONFIG n ''t1'' ''0'' file_big (db_big_file_loop, stats0)))) =
         [(''x'', 1, VALID), (''y'', 1, VALID), (''p'', 2, VALID)]
      \<and> audit_trace (fst (scan_file DEFAULT_CONFIG n ''t1'' ''0'' file_big (db_big_file_loop, stats0))) =
         [(''register'', Some ''p'')]"
proof
  fix n
  have g: "get_by_path db_big_file_loop (rel file_big) = Some rec_p"
    by (simp add: get_by_path_def get_def db_big_file_loop_def db_big_file_def file_big_def
          rec_p_def ex_row_def ex_edge_def parents_of_def children_of_def row_of_def)
  have s: "st_size file_big = Some 60000000" by (simp add: file_big_def)
  have h: "hash_file DEFAULT_CONFIG file_big = None"
    by (simp add: hash_file_def file_big_def DEFAULT_CONFIG_def)
  have c: "(case hash_file DEFAULT_CONFIG file_big of None \<Rightarrow> True
            | Some h \<Rightarrow> hash_sha256 rec_p \<noteq> h) \<or> size_bytes rec_p \<noteq> 60000000"
    by (simp add: h)
  have ch: "children_of (lineage db_big_file_loop) (uid rec_p) = ''x'' # [''y'']"
    by (simp add: children_of_def db_big_file_loop_def db_big_file_def ex_edge_def rec_p_def)
  have cy: "(''x'', ''x'') \<in> (set (edge_pairs (lineage db_big_file_loop)))\<^sup>+" by code_simp
  show "hash_file DEFAULT_CONFIG file_big = None
      \<and> updated (snd (scan_file DEFAULT_CONFIG n ''t1'' ''0'' file_big (db_big_file_loop, stats0))) = 0
      \<and> errors (snd (scan_file DEFAULT_CONFIG n ''t1'' ''0'' file_big (db_big_file_loop, stats0))) = 1
      \<and> map (\<lambda>r. (col_uid r, col_version r, col_status r))
           (data_records (fst (scan_file DEFAULT_CONFIG n ''t1'' ''0'' file_big (db_big_file_loop, stats0)))) =
         [(''x'', 1, VALID), (''y'', 1, VALID), (''p'', 2, VALID)]
      \<and> audit_trace (fst (scan_file DEFAULT_CONFIG n ''t1'' ''0'' file_big (db_big_file_loop, stats0))) =
         [(''register'', Some ''p'')]"
    unfolding scan_file_changed_cycle[OF g s c ch cy]
    by (simp add: hash_file_def DEFAULT_CONFIG_def stats0_def register_def audit_def
          audit_trace_def replace_row_def row_of_def
          rec_p_def db_big_file_loop_def db_big_file_def ex_row_def file_big_def
          validate_json_file_def replace_backslash_def basename_def key_files_def)
qed

lemma find_filter_keep:
  "find P xs = Some x \<Longrightarrow> Q x \<Longrightarrow> find P (filter Q xs) = Some x"
  by (induction xs) (auto split: if_splits)

lemma remove_unseen_seen:
  "path r \<in> set seen \<Longrightarrow> remove_unseen now seen r (db, stats) = (db, stats)"
  by (simp add: remove_unseen_def)

lemma remove_unseen_unseen:
  "path r \<notin> set seen \<Longrightarrow>
   remove_unseen now seen r (db, stats) =
     (delete now db (uid r), stats\<lparr>removed := removed stats + 1\<rparr>)"
  by (simp add: remove_unseen_def)

lemma fold_remove_unseen:
  "\<exists>db'. fold (remove_unseen now seen) recs (db, stats) =
           (db', stats\<lparr>removed := removed stats + length (filter (\<lambda>r. path r \<notin> set seen) recs)\<rparr>)
       \<and> data_records db' =
           filter (\<lambda>row. col_uid row \<notin> uid ` {r \<in> set recs. path r \<notin> set seen}) (data_records db)"
proof (induction recs arbitrary: db stats)
  case Nil
  show ?case by simp
next
  case (Cons r recs)
  show ?case
  proof (cases "path r \<in> set seen")
    case True
    from Cons.IH[of db stats] obtain db' where
      f: "fold (remove_unseen now seen) recs (db, stats) =
         (db', stats\<lparr>removed := removed stats + length (filter (\<lambda>r. path r \<notin> set seen) recs)\<rparr>)" and
      d: "data_records db' = filter (\<lambda>row. col_uid row \<notin> uid ` {r \<in> set recs. path r \<notin> set seen}) (data_records db)"
      by blast
    have s: "{x \<in> set (r # recs). path x \<notin> set seen} = {x \<in> set recs. path x \<notin> set seen}"
      using True by auto
    have "fold (remove_unseen now seen) (r # recs) (db, stats) =
         (db', stats\<lparr>removed := removed stats + length (filter (\<lambda>r. path r \<notin> set seen) (r # recs))\<rparr>)"
      using True f by (simp add: remove_unseen_seen)
    moreover have "data_records db' =
        filter (\<lambda>row. col_uid row \<notin> uid ` {x \<in> set (r # recs). path x \<notin> set seen}) (data_records db)"
      unfolding s by (rule d)
    ultimately show ?thesis by blast
  next
    case False
    let ?db1 = "delete now db (uid r)"
    let ?st1 = "stats\<lparr>removed := removed stats + 1\<rparr>"
    from Cons.IH[of ?db1 ?st1] obtain db' where
      f: "fold (remove_unseen now seen) recs (?db1, ?st1) =
         (db', ?st1\<lparr>removed := removed ?st1 + length (filter (\<lambda>r. path r \<notin> set seen) recs)\<rparr>)" and
      d: "data_records db' = filter (\<lambda>row. col_uid row \<notin> uid ` {r \<in> set recs. path r \<notin> set seen}) (data_records ?db1)"
      by blast
    have s: "{x \<in> set (r # recs). path x \<notin> set seen} = insert r {x \<in> set recs. path x \<notin> set seen}"
      using False by auto
    have "data_records ?db1 = filter (\<lambda>row. col_uid row \<noteq> uid r) (data_records db)"
      by (simp add: delete_def audit_def)
    then have "data_records db' =
        filter (\<lambda>row. col_uid row \<notin> uid ` {x \<in> set (r # recs). path x \<notin> set seen}) (data_records db)"
      unfolding d s by (simp add: conj_commute)
    moreover have "fold (remove_unseen now seen) (r # recs) (db, stats) =
         (db', stats\<lparr>removed := removed stats + length (filter (\<lambda>r. path r \<notin> set seen) (r # recs))\<rparr>)"
      using False f by (simp add: remove_unseen_unseen)
    ultimately show ?thesis by blast
  qed
qed

lemma query_all_from_table:
  "r \<in> set (query db None None limit) \<Longrightarrow> get db (uid r) = Some r"
proof -
  assume "r \<in> set (query db None None limit)"
  then obtain u where "get db u = Some r"
    by (auto simp: query_def List.map_filter_def)
  with get_Some[OF this] show ?thesis by simp
qed

lemma scan_file_new_file:
  assumes sz: "st_size e = Some sz"
      and new: "get_by_path db (rel e) = None"
  shows "\<exists>r. scan_file cfg depth now fresh e (db, stats) =
               (register now db r, stats\<lparr>added := added stats + 1\<rparr>)
           \<and> path r = rel e \<and> size_bytes r = sz
           \<and> hash_sha256 r = (case hash_file cfg e of None \<Rightarrow> [] | Some h \<Rightarrow> h)
           \<and> created_at r = now \<and> modified_at r = now \<and> version r = 1
           \<and> status r = fst (validate_json_file (rel e) e)
           \<and> find (\<lambda>x. col_path x = rel e) (data_records (register now db r)) = Some (row_of r)
           \<and> find (\<lambda>x. col_uid x = uid r) (data_records (register now db r)) = Some (row_of r)"
proof -
  let ?v = "validate_json_file (rel e) e"
  define r where "r = \<lparr>uid = generate_uid (take 4 (category_value (categorize_file cfg (rel e)))) fresh,
      path = rel e, category = categorize_file cfg (rel e), status = fst ?v, size_bytes = sz,
      hash_sha256 = (case hash_file cfg e of None \<Rightarrow> [] | Some h \<Rightarrow> h),
      created_at = now, modified_at = now, version = 1,
      parent_uids = [], child_uids = [],
      metadata = (if snd ?v \<noteq> [] then [(''validation'', validation_entry (fst ?v) (snd ?v) now)] else []),
      schema_uid = None\<rparr>"
  have sf: "scan_file cfg depth now fresh e (db, stats) =
          (register now db r, stats\<lparr>added := added stats + 1\<rparr>)"
    by (simp add: scan_file_def sz new Let_def r_def)
  have nf: "find (\<lambda>x. col_path x = rel e) (data_records db) = None"
    by (rule get_by_path_None[OF new])
  have fp: "find (\<lambda>x. col_path x = rel e) (data_records (register now db r)) = Some (row_of r)"
  proof -
    have fa: "find P (xs @ [y]) = (case find P xs of None \<Rightarrow> (if P y then Some y else None) | Some x \<Rightarrow> Some x)"
      for P :: "Row \<Rightarrow> bool" and xs y
      by (induction xs) simp_all
    have "find (\<lambda>x. col_path x = rel e) (filter P (data_records db)) = None" for P
      using nf by (auto simp: find_None_iff)
    then show ?thesis
      by (simp add: register_def audit_def replace_row_def fa row_of_def r_def)
  qed
  have fu: "find (\<lambda>x. col_uid x = uid r) (data_records (register now db r)) = Some (row_of r)"
    using find_replace_row[of "row_of r" "data_records db"]
    by (simp add: register_def audit_def row_of_def)
  show ?thesis
    using sf fp fu by (intro exI[of _ r]) (simp add: r_def)
qed

lemma scan_single_new_file:
  assumes w: "walk_all cfg tree = [e]"
      and sz: "st_size e = Some sz"
      and new: "get_by_path db (rel e) = None"
  shows "\<exists>db' st r'. scan cfg depth now fresh db tree = (db', st)
           \<and> added st = 1 \<and> updated st = 0 \<and> unchanged st = 0 \<and> errors st = 0
           \<and> get_by_path db' (rel e) = Some r'
           \<and> size_bytes r' = sz
           \<and> hash_sha256 r' = (case hash_file cfg e of None \<Rightarrow> [] | Some h \<Rightarrow> h)
           \<and> created_at r' = now \<and> modified_at r' = now"
proof -
  from scan_file_new_file[OF sz new, of cfg depth now "fresh (rel e)" stats0] obtain r where
    sf: "scan_file cfg depth now (fresh (rel e)) e (db, stats0) =
           (register now db r, stats0\<lparr>added := added stats0 + 1\<rparr>)" and
    r: "path r = rel e" "size_bytes r = sz"
       "hash_sha256 r = (case hash_file cfg e of None \<Rightarrow> [] | Some h \<Rightarrow> h)"
       "created_at r = now" "modified_at r = now" and
    fp: "find (\<lambda>x. col_path x = rel e) (data_records (register now db r)) = Some (row_of r)" and
    fu: "find (\<lambda>x. col_uid x = uid r) (data_records (register now db r)) = Some (row_of r)"
    by blast
  let ?db1 = "register now db r"
  let ?st1 = "stats0\<lparr>added := added stats0 + 1\<rparr>"
  let ?recs = "query ?db1 None None 100000"
  let ?D = "uid ` {x \<in> set ?recs. path x \<notin> set [rel e]}"
  from fold_remove_unseen[of now "[rel e]" ?recs ?db1 ?st1] obtain db' where
    f: "fold (remove_unseen now [rel e]) ?recs (?db1, ?st1) =
          (db', ?st1\<lparr>removed := removed ?st1 + length (filter (\<lambda>r. path r \<notin> set [rel e]) ?recs)\<rparr>)" and
    d: "data_records db' = filter (\<lambda>row. col_uid row \<notin> ?D) (data_records ?db1)"
    by blast
  have sc: "scan cfg depth now fresh db tree =
          (db', ?st1\<lparr>removed := removed ?st1 + length (filter (\<lambda>r. path r \<notin> set [rel e]) ?recs)\<rparr>)"
    using f by (simp add: scan_def w sf Let_def)
  have keep: "uid r \<notin> ?D"
  proof
    assume "uid r \<in> ?D"
    then obtain x where x: "x \<in> set ?recs" "path x \<noteq> rel e" "uid x = uid r" by auto
    from query_all_from_table[OF x(1)] x(3) have "get ?db1 (uid r) = Some x" by simp
    then have "path x = col_path (row_of r)" unfolding get_def fu by auto
    with x(2) r(1) show False by (simp add: row_of_def)
  qed
  then have q: "col_uid (row_of r) \<notin> ?D" by (simp add: row_of_def)
  have fp': "find (\<lambda>x. col_path x = rel e) (data_records db') = Some (row_of r)"
    unfolding d using fp q by (rule find_filter_keep[where Q = "\<lambda>row. col_uid row \<notin> ?D"])
  have fu': "find (\<lambda>x. col_uid x = uid r) (data_records db') = Some (row_of r)"
    unfolding d using fu q by (rule find_filter_keep[where Q = "\<lambda>row. col_uid row \<notin> ?D"])
  obtain r' where r': "get_by_path db' (rel e) = Some r'" "row_of r' = row_of r"
    using fp' fu' by (simp add: get_by_path_def get_def row_of_def)
  from r'(2) r have "size_bytes r' = sz"
      "hash_sha256 r' = (case hash_file cfg e of None \<Rightarrow> [] | Some h \<Rightarrow> h)"
      "created_at r' = now" "modified_at r' = now"
    by (simp_all add: row_of_def)
  with sc r'(1) show ?thesis by (simp add: stats0_def)
qed

text \<open>
  C6. For a file larger than \<open>hash_max_mb\<close> megabytes \<open>hash_file\<close> returns
  \<open>None\<close>; when no record tracks the file's path, the scan step registers a record
  with the file's size, the empty digest and the current time as creation and
  modification time, counts it as added and counts no error; the record is found under
  the path afterwards. A pass over a root whose only file it is returns with one file
  added and no error, and the registry holds the record at the end of the pass.
\<close>

theorem oversize_file_still_registered:
  assumes "st_size e = Some sz"
      and "sz > hash_max_mb cfg * 1024 * 1024"
      and "get_by_path db (rel e) = None"
  shows "hash_file cfg e = None
     \<and> (\<exists>r r'. scan_file cfg depth now fresh e (db, stats) =
                  (register now db r, stats\<lparr>added := added stats + 1\<rparr>)
          \<and> path r = rel e \<and> size_bytes r = sz \<and> hash_sha256 r = []
          \<and> created_at r = now \<and> modified_at r = now \<and> version r = 1
          \<and> status r = fst (validate_json_file (rel e) e)
          \<and> get_by_path (register now db r) (rel e) = Some r' \<and> row_of r' = row_of r)
     \<and> (walk_all cfg tree = [e] \<longrightarrow>
          (\<exists>db' st r'. scan cfg depth now fresh_of db tree = (db', st)
             \<and> added st = 1 \<and> updated st = 0 \<and> unchanged st = 0 \<and> errors st = 0
             \<and> get_by_path db' (rel e) = Some r'
             \<and> size_bytes r' = sz \<and> hash_sha256 r' = []
             \<and> created_at r' = now \<and> modified_at r' = now))"
proof -
  have h: "hash_file cfg e = None" by (rule hash_file_oversize[OF assms(1,2)])
  from scan_file_new_file[OF assms(1,3), of cfg depth now fresh stats] obtain r where
    sf: "scan_file cfg depth now fresh e (db, stats) =
           (register now db r, stats\<lparr>added := added stats + 1\<rparr>)" and
    r: "path r = rel e" "size_bytes r = sz" "hash_sha256 r = []"
       "created_at r = now" "modified_at r = now" "version r = 1"
       "status r = fst (validate_json_file (rel e) e)" and
    fp: "find (\<lambda>x. col_path x = rel e) (data_records (register now db r)) = Some (row_of r)" and
    fu: "find (\<lambda>x. col_uid x = uid r) (data_records (register now db r)) = Some (row_of r)"
    unfolding h by auto
  obtain r' where r': "get_by_path (register now db r) (rel e) = Some r'" "row_of r' = row_of r"
    using fp fu by (simp add: get_by_path_def get_def row_of_def)
  have step: "\<exists>r r'. scan_file cfg depth now fresh e (db, stats) =
                  (register now db r, stats\<lparr>added := added stats + 1\<rparr>)
          \<and> path r = rel e \<and> size_bytes r = sz \<and> hash_sha256 r = []
          \<and> created_at r = now \<and> modified_at r = now \<and> version r = 1
          \<and> status r = fst (validate_json_file (rel e) e)
          \<and> get_by_path (register now db r) (rel e) = Some r' \<and> row_of r' = row_of r"
    using sf r r' by blast
  have pass: "\<exists>db' st r'. scan cfg depth now fresh_of db tree = (db', st)
             \<and> added st = 1 \<and> updated st = 0 \<and> unchanged st = 0 \<and> errors st = 0
             \<and> get_by_path db' (rel e) = Some r'
             \<and> size_bytes r' = sz \<and> hash_sha256 r' = []
             \<and> created_at r' = now \<and> modified_at r' = now"
    if "walk_all cfg tree = [e]"
    using scan_single_new_file[OF that assms(1,3), of depth now fresh_of] unfolding h by simp
  from h step pass show ?thesis by blast
qed

theorem oversize_file_still_registered_witness:
  "st_size file_big = Some 60000000
   \<and> 60000000 > hash_max_mb DEFAULT_CONFIG * 1024 * 1024
   \<and> get_by_path db_chain (rel file_big) = None
   \<and> walk_all DEFAULT_CONFIG [file_big] = [file_big]
   \<and> hash_file DEFAULT_CONFIG file_big = None
   \<and> map (\<lambda>r. (col_uid r, col_path r, col_size r, col_hash_sha256 r, col_status r))
        (data_records (fst (scan_file DEFAULT_CONFIG 900 ''t1'' ''0a1b'' file_big (db_chain, stats0)))) =
      [(''u'', ''a.json'', 10, ''h0'', VALID), (''c1'', ''b.json'', 10, ''h0'', VALID),
       (''c2'', ''c.json'', 10, ''h0'', VALID), (''sour_0a1b'', ''big.bin'', 60000000, [], VALID)]
   \<and> snd (scan_file DEFAULT_CONFIG 900 ''t1'' ''0a1b'' file_big (db_chain, stats0)) =
      \<lparr>added = 1, updated = 0, unchanged = 0, removed = 0, errors = 0\<rparr>
   \<and> (\<exists>db' st r'. scan DEFAULT_CONFIG 900 ''t1'' (\<lambda>p. ''0a1b'') db_chain [file_big] = (db', st)
         \<and> added st = 1 \<and> updated st = 0 \<and> unchanged st = 0 \<and> errors st = 0
         \<and> get_by_path db' ''big.bin'' = Some r'
         \<and> size_bytes r' = 60000000 \<and> hash_sha256 r' = []
         \<and> created_at r' = ''t1'' \<and> modified_at r' = ''t1'')"
proof -
  have s: "st_size file_big = Some 60000000" by (simp add: file_big_def)
  have b: "(60000000::int) > hash_max_mb DEFAULT_CONFIG * 1024 * 1024"
    by (simp add: DEFAULT_CONFIG_def)
  have g: "get_by_path db_chain (rel file_big) = None"
    by (simp add: get_by_path_def db_chain_def file_big_def ex_row_def)
  have w: "walk_all DEFAULT_CONFIG [file_big] = [file_big]"
    by (simp add: walk_all_def is_excluded_def DEFAULT_CONFIG_def file_big_def
          replace_backslash_def strip_slashes_def startswith_def)
  have rl: "rel file_big = ''big.bin''" by (simp add: file_big_def)
  note t = oversize_file_still_registered[OF s b g, where depth = 900 and now = "''t1''"
             and fresh = "''0a1b''" and stats = stats0 and tree = "[file_big]"
             and fresh_of = "\<lambda>p. ''0a1b''"]
  from t have h: "hash_file DEFAULT_CONFIG file_big = None" by blast
  from t w have p: "\<exists>db' st r'. scan DEFAULT_CONFIG 900 ''t1'' (\<lambda>p. ''0a1b'') db_chain [file_big] = (db', st)
         \<and> added st = 1 \<and> updated st = 0 \<and> unchanged st = 0 \<and> errors st = 0
         \<and> get_by_path db' ''big.bin'' = Some r'
         \<and> size_bytes r' = 60000000 \<and> hash_sha256 r' = []
         \<and> created_at r' = ''t1'' \<and> modified_at r' = ''t1''"
    unfolding rl by blast
  have "scan_file DEFAULT_CONFIG 900 ''t1'' ''0a1b'' file_big (db_chain, stats0) =
     (register ''t1'' db_chain
        \<lparr>uid = ''sour_0a1b'', path = ''big.bin'', category = SOURCE, status = VALID,
         size_bytes = 60000000, hash_sha256 = [], created_at = ''t1'', modified_at = ''t1'',
         version = 1, parent_uids = [], child_uids = [], metadata = [], schema_uid = None\<rparr>,
      \<lparr>added = 1, updated = 0, unchanged = 0, removed = 0, errors = 0\<rparr>)"
    by (simp add: scan_file_def file_big_def g[unfolded file_big_def, simplified] hash_file_def
          DEFAULT_CONFIG_def categorize_file_def startswith_def validate_json_file_def
          replace_backslash_def basename_def key_files_def generate_uid_def stats0_def Let_def)
  then have "map (\<lambda>r. (col_uid r, col_path r, col_size r, col_hash_sha256 r, col_status r))
        (data_records (fst (scan_file DEFAULT_CONFIG 900 ''t1'' ''0a1b'' file_big (db_chain, stats0)))) =
      [(''u'', ''a.json'', 10, ''h0'', VALID), (''c1'', ''b.json'', 10, ''h0'', VALID),
       (''c2'', ''c.json'', 10, ''h0'', VALID), (''sour_0a1b'', ''big.bin'', 60000000, [], VALID)]"
      "snd (scan_file DEFAULT_CONFIG 900 ''t1'' ''0a1b'' file_big (db_chain, stats0)) =
      \<lparr>added = 1, updated = 0, unchanged = 0, removed = 0, errors = 0\<rparr>"
    by (simp_all add: register_def audit_def replace_row_def row_of_def db_chain_def ex_row_def)
  with s b g w h p show ?thesis by blast
qed

section \<open>Colour lookup of touch zones\<close>

lemma upper_char_lower:
  assumes "65 \<le> (of_char a :: nat)" "(of_char a :: nat) \<le> 90" "(of_char b :: nat) = of_char a + 32"
  shows "upper_char b = upper_char a"
proof -
  have "upper_char a = a" using assms by (simp add: upper_char_def)
  moreover have "upper_char b = char_of (of_char a :: nat)" using assms by (simp add: upper_char_def)
  ultimately show ?thesis by simp
qed

lemma same_letter_upper: "same_letter a b \<Longrightarrow> upper_char a = upper_char b"
  unfolding same_letter_def using upper_char_lower by metis

lemma upper_same: "list_all2 same_letter xs ys \<Longrightarrow> upper xs = upper ys"
  by (induction rule: list_all2_induct) (simp_all add: upper_def same_letter_upper)

lemma upper_char_hash: "upper_char c = CHR ''#'' \<longleftrightarrow> c = CHR ''#''"
proof
  assume a: "upper_char c = CHR ''#''"
  show "c = CHR ''#''"
  proof (cases "97 \<le> (of_char c :: nat) \<and> (of_char c :: nat) \<le> 122")
    case True
    then have "(of_char c :: nat) - 32 < 256" by linarith
    then have "((of_char c :: nat) - 32) mod 256 = of_char c - 32" by (rule mod_less)
    with True have "of_char (upper_char c) = (of_char c :: nat) - 32"
      by (simp add: upper_char_def)
    with a have "(of_char c :: nat) - 32 = 35" by simp
    with True have False by linarith
    then show ?thesis ..
  next
    case False with a show ?thesis by (simp add: upper_char_def)
  qed
next
  assume "c = CHR ''#''" then show "upper_char c = CHR ''#''" by (simp add: upper_char_def)
qed

lemma remove_hash_strip: "remove_hash (upper (strip_leading_hash k)) = remove_hash (upper k)"
  by (cases k) (auto simp: strip_leading_hash_def remove_hash_def upper_def upper_char_hash)

text \<open>
  C8. For every table of touch zones and every two colour keys that are equal up to ASCII
  letter case and a leading \<open>#\<close>, the lookup by colour returns the same result for
  both keys.
\<close>

theorem color_lookup_ignores_case_and_hash:
  "equal_up_to_case_and_hash k1 k2 \<Longrightarrow>
   get_touch_zone_by_color touch_zones k1 = get_touch_zone_by_color touch_zones k2"
proof -
  assume "equal_up_to_case_and_hash k1 k2"
  then have "upper (strip_leading_hash k1) = upper (strip_leading_hash k2)"
    unfolding equal_up_to_case_and_hash_def by (rule upper_same)
  then have "remove_hash (upper k1) = remove_hash (upper k2)"
    using remove_hash_strip[of k1] remove_hash_strip[of k2] by simp
  then show ?thesis by (simp add: get_touch_zone_by_color_def)
qed

theorem color_lookup_ignores_case_and_hash_witness:
  "equal_up_to_case_and_hash ''#AABBCC'' ''aabbcc''
   \<and> get_touch_zone_by_color [zone_example] ''#AABBCC'' = Some zone_example
   \<and> get_touch_zone_by_color [zone_example] ''aabbcc'' = Some zone_example"
proof -
  have e: "equal_up_to_case_and_hash ''#AABBCC'' ''aabbcc''"
    by (simp add: equal_up_to_case_and_hash_def strip_leading_hash_def same_letter_def)
  have "get_touch_zone_by_color [zone_example] ''aabbcc'' = Some zone_example"
    by code_simp
  with e color_lookup_ignores_case_and_hash[OF e, of "[zone_example]"] show ?thesis by simp
qed

section \<open>Atomicity of register\<close>

lemma execute_all_no_fail:
  "\<forall>j. fail = Some j \<longrightarrow> j < i \<or> i + length stmts \<le> j \<Longrightarrow>
   execute_all fail i stmts db = Inr (fold (\<lambda>s d. s d) stmts db)"
proof (induction stmts arbitrary: i db)
  case Nil then show ?case by simp
next
  case (Cons s stmts)
  have "fail \<noteq> Some i" using Cons.prems by auto
  moreover have "\<forall>j. fail = Some j \<longrightarrow> j < Suc i \<or> Suc i + length stmts \<le> j"
    using Cons.prems by auto
  ultimately show ?case using Cons.IH[of "Suc i" "s db"] by simp
qed

lemma execute_all_fail:
  "fail = Some j \<Longrightarrow> i \<le> j \<Longrightarrow> j < i + length stmts \<Longrightarrow>
   execute_all fail i stmts db = Inl StorageError"
proof (induction stmts arbitrary: i db)
  case Nil then show ?case by simp
next
  case (Cons s stmts)
  show ?case
  proof (cases "j = i")
    case True then show ?thesis using Cons.prems by simp
  next
    case False
    then have "Suc i \<le> j" "j < Suc i + length stmts" using Cons.prems by auto
    from Cons.IH[OF Cons.prems(1) this] False Cons.prems(1) show ?thesis by simp
  qed
qed

lemma fold_register_statements:
  "fold (\<lambda>s d. s d) (register_statements now r) db =
     db\<lparr>data_records := replace_row (row_of r) (data_records db),
        lineage := fold (insert_edge now (uid r)) (parent_uids r)
                     (delete_parent_edges (uid r) (lineage db))\<rparr>"
proof -
  have "fold (\<lambda>s d. s d) (map (\<lambda>p db. db\<lparr>lineage := insert_edge now u p (lineage db)\<rparr>) ps) d =
        d\<lparr>lineage := fold (insert_edge now u) ps (lineage d)\<rparr>" for ps u and d :: Registry
    by (induction ps arbitrary: d) simp_all
  then show ?thesis by (simp add: register_statements_def)
qed

lemma length_register_statements: "length (register_statements now r) = length (parent_uids r) + 2"
  by (simp add: register_statements_def)

text \<open>
  C10. The row replacement, the deletion of the parent edges and the edge inserts of
  \<open>register\<close> run in one transaction. When no write fails the call is \<open>register\<close>.
  When a write of the transaction fails (the row replacement, the edge deletion, one of
  the edge inserts or the commit) the call raises and leaves the database as it was.
  When the audit write fails, which comes after the commit in a connection of its own,
  the call raises as well, and the row replacement and the new edges are both in the
  database; only the audit entry is missing. Whatever write fails, the tables
  \<open>data_records\<close> and \<open>lineage\<close> are either both as before the call or both
  as the complete call leaves them.
\<close>

theorem register_all_or_nothing:
  "(fail = None \<longrightarrow> register_failing fail now db r = (register now db r, None))
   \<and> (\<forall>i. fail = Some i \<and> i \<le> length (parent_uids r) + 2 \<longrightarrow>
          register_failing fail now db r = (db, Some StorageError))
   \<and> (fail = Some (length (parent_uids r) + 3) \<longrightarrow>
          register_failing fail now db r =
            (db\<lparr>data_records := replace_row (row_of r) (data_records db),
                lineage := fold (insert_edge now (uid r)) (parent_uids r)
                             (delete_parent_edges (uid r) (lineage db))\<rparr>,
             Some StorageError))
   \<and> (\<forall>i. fail = Some i \<and> length (parent_uids r) + 3 < i \<longrightarrow>
          register_failing fail now db r = (register now db r, None))
   \<and> (data_records (fst (register_failing fail now db r)) = data_records db
        \<and> lineage (fst (register_failing fail now db r)) = lineage db
      \<or> data_records (fst (register_failing fail now db r)) = data_records (register now db r)
        \<and> lineage (fst (register_failing fail now db r)) = lineage (register now db r))"
proof -
  let ?S = "register_statements now r"
  let ?db1 = "db\<lparr>data_records := replace_row (row_of r) (data_records db),
        lineage := fold (insert_edge now (uid r)) (parent_uids r)
                     (delete_parent_edges (uid r) (lineage db))\<rparr>"
  have ok: "register_failing fail now db r = (register now db r, None)" if "fail = None"
  proof -
    have "execute_all fail 0 ?S db = Inr ?db1"
      using execute_all_no_fail[of fail 0 ?S db] that by (simp add: fold_register_statements)
    then show ?thesis using that
      by (simp add: register_failing_def transaction_def register_def)
  qed
  have early: "register_failing fail now db r = (db, Some StorageError)"
    if "fail = Some i" "i \<le> length (parent_uids r) + 2" for i
  proof (cases "i < length ?S")
    case True
    then have "execute_all fail 0 ?S db = Inl StorageError"
      using execute_all_fail[of fail i 0 ?S db] that by simp
    then show ?thesis by (simp add: register_failing_def transaction_def)
  next
    case False
    then have i: "i = length ?S" using that(2) by (simp add: length_register_statements)
    have "execute_all fail 0 ?S db = Inr ?db1"
      using execute_all_no_fail[of fail 0 ?S db] that(1) i by (simp add: fold_register_statements)
    then show ?thesis using that(1) i by (simp add: register_failing_def transaction_def)
  qed
  have committed: "execute_all fail 0 ?S db = Inr ?db1"
    if "fail = Some i" "\<not> i \<le> length (parent_uids r) + 2" for i
    using execute_all_no_fail[of fail 0 ?S db] that
    by (simp add: fold_register_statements length_register_statements)
  have at_audit: "register_failing fail now db r = (?db1, Some StorageError)"
    if "fail = Some (length (parent_uids r) + 3)"
    using committed[OF that] that
    by (simp add: register_failing_def transaction_def length_register_statements)
  have beyond: "register_failing fail now db r = (register now db r, None)"
    if "fail = Some i" "length (parent_uids r) + 3 < i" for i
    using committed[OF that(1)] that
    by (simp add: register_failing_def transaction_def length_register_statements register_def)
  have late: "data_records (fst (register_failing fail now db r)) = data_records ?db1
            \<and> lineage (fst (register_failing fail now db r)) = lineage ?db1"
    if "fail = Some i" "\<not> i \<le> length (parent_uids r) + 2" for i
    using committed[OF that] that
    by (simp add: register_failing_def transaction_def length_register_statements audit_def)
  have both: "data_records (fst (register_failing fail now db r)) = data_records db
        \<and> lineage (fst (register_failing fail now db r)) = lineage db
      \<or> data_records (fst (register_failing fail now db r)) = data_records (register now db r)
        \<and> lineage (fst (register_failing fail now db r)) = lineage (register now db r)"
  proof (cases fail)
    case None then show ?thesis using ok by simp
  next
    case (Some i)
    show ?thesis
    proof (cases "i \<le> length (parent_uids r) + 2")
      case True then show ?thesis using early[OF Some] by simp
    next
      case False then show ?thesis using late[OF Some] by (simp add: register_def audit_def)
    qed
  qed
  from ok early at_audit beyond both show ?thesis by blast
qed

theorem register_all_or_nothing_witness:
  "register_failing (Some 3) ''t1'' db_chain ex_record = (db_chain, Some StorageError)
   \<and> execute_all (Some 3) 0 (take 3 (register_statements ''t1'' ex_record)) db_chain =
       Inr (db_chain\<lparr>data_records := [ex_row ''u'' ''a.json'', ex_row ''c1'' ''b.json'', row_of ex_record],
                     lineage := [ex_edge ''u'' ''c1'',
                       \<lparr>parent_uid = ''c1'', child_uid = ''c2'', relationship = ''derived_from'',
                        edge_created_at = ''t1''\<rparr>]\<rparr>)
   \<and> register_failing (Some 5) ''t1'' db_chain ex_record = (db_chain, Some StorageError)
   \<and> register_failing None ''t1'' db_chain ex_record = (register ''t1'' db_chain ex_record, None)
   \<and> register_failing (Some 7) ''t1'' db_chain ex_record = (register ''t1'' db_chain ex_record, None)"
proof -
  have "execute_all (Some 3) 0 (take 3 (register_statements ''t1'' ex_record)) db_chain =
       Inr (db_chain\<lparr>data_records := [ex_row ''u'' ''a.json'', ex_row ''c1'' ''b.json'', row_of ex_record],
                     lineage := [ex_edge ''u'' ''c1'',
                       \<lparr>parent_uid = ''c1'', child_uid = ''c2'', relationship = ''derived_from'',
                        edge_created_at = ''t1''\<rparr>]\<rparr>)"
    by (simp add: register_statements_def ex_record_def db_chain_def replace_row_def row_of_def
          ex_row_def ex_edge_def delete_parent_edges_def insert_edge_def)
  moreover have "length (parent_uids ex_record) + 2 = 5" by (simp add: ex_record_def)
  moreover have "length (parent_uids ex_record) + 3 = 6" by (simp add: ex_record_def)
  ultimately show ?thesis
    using register_all_or_nothing[of "Some 3" "''t1''" db_chain ex_record]
          register_all_or_nothing[of "Some 5" "''t1''" db_chain ex_record]
          register_all_or_nothing[of None "''t1''" db_chain ex_record]
          register_all_or_nothing[of "Some 7" "''t1''" db_chain ex_record]
    by simp
qed

text \<open>
  The audit write of \<open>register ex_record\<close> on \<open>db_chain\<close> is write number 6 (the
  row, the edge deletion, three edge inserts and the commit come first). When it fails
  the call raises, and the two tables are not as they were before the call: the row of
  \<open>c2\<close> is replaced and \<open>c2\<close> has the new parent \<open>u\<close>. No audit entry is written.
\<close>

theorem register_all_or_nothing_counterexample:
  "snd (register_failing (Some 6) ''t1'' db_chain ex_record) = Some StorageError
   \<and> data_records (fst (register_failing (Some 6) ''t1'' db_chain ex_record)) =
       [ex_row ''u'' ''a.json'', ex_row ''c1'' ''b.json'', row_of ex_record]
   \<and> data_records (fst (register_failing (Some 6) ''t1'' db_chain ex_record)) \<noteq> data_records db_chain
   \<and> edge_pairs (lineage (fst (register_failing (Some 6) ''t1'' db_chain ex_record))) =
       [(''u'', ''c1''), (''c1'', ''c2''), (''u'', ''c2'')]
   \<and> lineage (fst (register_failing (Some 6) ''t1'' db_chain ex_record)) \<noteq> lineage db_chain
   \<and> audit_log (fst (register_failing (Some 6) ''t1'' db_chain ex_record)) = []"
  by (simp add: register_failing_def transaction_def register_statements_def ex_record_def
        db_chain_def replace_row_def row_of_def ex_row_def ex_edge_def delete_parent_edges_def
        insert_edge_def edge_pairs_def)

section \<open>stop while the supervisor waits to restart\<close>

text \<open>
  C4, on the code. The listener's thread dies while the listener is enabled; the
  supervisor finds it dead and sleeps for \<open>restart_delay\<close>; \<open>stop_http_server\<close>
  runs during the sleep. After the sleep the supervisor tests \<open>_stop_event\<close> only,
  not \<open>_server_enabled\<close>, and binds a new listener: listener 1 is bound and served
  while \<open>server_enabled\<close> is false, with no \<open>start\<close> or \<open>restart\<close> in between.
\<close>

theorem stop_during_backoff_rebinds:
  "run [Supervisor True, WorkerDies, Supervisor True] manager_running =
     manager_running\<lparr>alive := [], pc := Backoff\<rparr>
   \<and> run [Supervisor True, WorkerDies, Supervisor True, Stop] manager_running =
     manager_running\<lparr>server_enabled := False, server := None, alive := [], pc := Backoff\<rparr>
   \<and> run [Supervisor True, WorkerDies, Supervisor True, Stop, Supervisor True] manager_running =
     \<lparr>stop_event = False, server_enabled = False, server = Some 1, server_thread = Some 1,
      alive = [1], bound = 2, restart_delay = 1, pc = LoopTop\<rparr>"
  by (simp add: run_def manager_running_def supervisor_step_def stop_http_server_def
        shutdown_def start_server_def)

text \<open>
  Outside that sleep \<open>stop_http_server\<close> does what the claim says: when the supervisor
  is not in its backoff sleep as \<open>stop_http_server\<close> runs, no listener is bound, however
  the supervisor and the listener's thread go on, until \<open>start\<close> or \<open>restart\<close>.
\<close>

lemma stopped_step:
  assumes "\<not> server_enabled m" "pc m \<noteq> Backoff" "server m = None" "\<not> enables ev"
  shows "\<not> server_enabled (step ev m) \<and> pc (step ev m) \<noteq> Backoff \<and> server (step ev m) = None
         \<and> bound (step ev m) = bound m"
proof (cases ev)
  case (Supervisor b)
  then show ?thesis using assms
    by (cases "pc m") (auto simp: supervisor_step_def split: option.splits)
next
  case Stop
  then show ?thesis using assms by (simp add: stop_http_server_def shutdown_def)
next
  case (Start b)
  then show ?thesis using assms by simp
next
  case Restart
  then show ?thesis using assms by simp
next
  case WorkerDies
  then show ?thesis using assms by (simp split: option.splits)
qed

lemma stopped_run:
  "\<not> server_enabled m \<Longrightarrow> pc m \<noteq> Backoff \<Longrightarrow> server m = None \<Longrightarrow> list_all (\<lambda>ev. \<not> enables ev) evs \<Longrightarrow>
   server (run evs m) = None \<and> bound (run evs m) = bound m"
proof (induction evs arbitrary: m)
  case Nil then show ?case by (simp add: run_def)
next
  case (Cons ev evs)
  from stopped_step[of m ev] Cons.prems
  have s: "\<not> server_enabled (step ev m)" "pc (step ev m) \<noteq> Backoff" "server (step ev m) = None"
      "bound (step ev m) = bound m" by simp_all
  from Cons.IH[OF s(1,2,3)] Cons.prems(4) s(4) show ?case by (simp add: run_def)
qed

lemma stop_outside_backoff_holds:
  "pc m \<noteq> Backoff \<Longrightarrow> list_all (\<lambda>ev. \<not> enables ev) evs \<Longrightarrow>
   server (run evs (stop_http_server m)) = None \<and> bound (run evs (stop_http_server m)) = bound m"
proof -
  assume a: "pc m \<noteq> Backoff" "list_all (\<lambda>ev. \<not> enables ev) evs"
  have "\<not> server_enabled (stop_http_server m)" "pc (stop_http_server m) \<noteq> Backoff"
       "server (stop_http_server m) = None" "bound (stop_http_server m) = bound m"
    using a(1) by (simp_all add: stop_http_server_def shutdown_def split: option.splits)
  with stopped_run[of "stop_http_server m" evs] a(2) show ?thesis by simp
qed

text \<open>
  The same window opens without a crash: \<open>restart_http_server\<close> tears the listener
  down with the flag set, the supervisor goes to sleep before binding the new one, and a
  \<open>stop_http_server\<close> during that sleep is overridden in the same way.
\<close>

lemma stop_after_restart_rebinds:
  "run [Supervisor True, Restart, Supervisor True, Stop, Supervisor True] manager_running =
     \<lparr>stop_event = False, server_enabled = False, server = Some 1, server_thread = Some 1,
      alive = [1], bound = 2, restart_delay = 1, pc = LoopTop\<rparr>"
  by (simp add: run_def manager_running_def supervisor_step_def stop_http_server_def
        restart_http_server_def shutdown_def start_server_def)

end
